theory Spec2Isabelle
  imports Complex_Main
begin

section \<open>Numbers, vectors and loops\<close>

text \<open>
  The solver stores every field as a flat \<^verbatim>\<open>std::vector<double>\<close> indexed
  \<^verbatim>\<open>[vars*cell + k]\<close>. A \<^verbatim>\<open>double\<close> is modelled as a real number; there is no
  infinity and no NaN. Arithmetic is exact everywhere except in \<^verbatim>\<open>calc_limiters\<close> and
  \<^verbatim>\<open>limiter_func\<close>, whose range depends on the rounding: there every operation of the
  source is rounded to binary64 by \<open>b64\<close> below. A vector is a list; a write
  \<^verbatim>\<open>v[i] = x\<close> is \<open>v[i := x]\<close> and a read is \<open>v ! i\<close>. Reading or writing out of
  range is undefined behaviour in C++; the theorems below state the size conditions
  under which the entries they speak about exist.
\<close>

text \<open>\<^verbatim>\<open>std::min(a, b)\<close> is \<^verbatim>\<open>(b < a) ? b : a\<close> and \<^verbatim>\<open>std::max(a, b)\<close> is
  \<^verbatim>\<open>(a < b) ? b : a\<close>.\<close>

definition std_min :: "real \<Rightarrow> real \<Rightarrow> real" where
  "std_min a b = (if b < a then b else a)"

definition std_max :: "real \<Rightarrow> real \<Rightarrow> real" where
  "std_max a b = (if a < b then b else a)"

section \<open>Rounding to binary64\<close>

text \<open>
  A \<^verbatim>\<open>double\<close> is an IEEE 754 binary64 number, and under the default rounding the result
  of \<^verbatim>\<open>+\<close>, \<^verbatim>\<open>-\<close>, \<^verbatim>\<open>*\<close>, \<^verbatim>\<open>/\<close> and \<^verbatim>\<open>sqrt\<close> is the exact result rounded to the nearest
  number with a significand of 53 bits, a tie going to the even significand. Every
  operation is rounded on its own: no fused multiply-add and no wider intermediate
  format. \<open>round_even\<close> rounds a real to the nearest integer in that way. \<open>b64\<close> scales its
  argument by powers of two until its magnitude lies in \<open>[2^52, 2^53)\<close>, rounds it to an
  integer there and scales back. The exponent is not bounded: overflow to infinity and
  the gradual underflow below \<open>2^-1022\<close> are left out, and so is NaN.
\<close>

definition round_even :: "real \<Rightarrow> int" where
  "round_even z =
     (let f = \<lfloor>z\<rfloor>; r = z - of_int f
      in if r < 1 / 2 then f else if 1 / 2 < r then f + 1 else if even f then f else f + 1)"

text \<open>The number of scalings that \<open>b64\<close> still has to make is bounded by \<open>b64_size\<close>.\<close>

definition b64_size :: "real \<Rightarrow> nat" where
  "b64_size x =
     (if 2 ^ 53 \<le> \<bar>x\<bar> then nat \<lfloor>\<bar>x\<bar> / 2 ^ 52\<rfloor>
      else if \<bar>x\<bar> < 2 ^ 52 \<and> x \<noteq> 0 then nat \<lfloor>2 ^ 53 / \<bar>x\<bar>\<rfloor>
      else 0)"

lemma half_floor: "2 \<le> (z::real) \<Longrightarrow> nat \<lfloor>z / 2\<rfloor> < nat \<lfloor>z\<rfloor>"
proof -
  assume z: "2 \<le> z"
  have "z / 2 \<le> z - 1" using z by simp
  then have "\<lfloor>z / 2\<rfloor> \<le> \<lfloor>z - 1\<rfloor>" by (rule floor_mono)
  then have "\<lfloor>z / 2\<rfloor> \<le> \<lfloor>z\<rfloor> - 1" by simp
  moreover have "2 \<le> \<lfloor>z\<rfloor>" using z by (simp add: le_floor_iff)
  ultimately show ?thesis by linarith
qed

function b64 :: "real \<Rightarrow> real" where
  "b64 x =
     (if x = 0 then 0
      else if 2 ^ 53 \<le> \<bar>x\<bar> then 2 * b64 (x / 2)
      else if \<bar>x\<bar> < 2 ^ 52 then b64 (2 * x) / 2
      else of_int (round_even x))"
  by pat_completeness auto

termination
proof (relation "measure b64_size")
  show "wf (measure b64_size)" by simp
next
  fix x :: real
  assume x: "x \<noteq> 0" "2 ^ 53 \<le> \<bar>x\<bar>"
  have big: "2 \<le> \<bar>x\<bar> / 2 ^ 52" using x(2) by simp
  have a: "b64_size x = nat \<lfloor>\<bar>x\<bar> / 2 ^ 52\<rfloor>" using x by (simp add: b64_size_def)
  have pos: "0 < nat \<lfloor>\<bar>x\<bar> / 2 ^ 52\<rfloor>" using half_floor [OF big] by simp
  have "b64_size (x / 2) < b64_size x"
  proof (cases "2 ^ 53 \<le> \<bar>x / 2\<bar>")
    case True
    then have "b64_size (x / 2) = nat \<lfloor>(\<bar>x\<bar> / 2 ^ 52) / 2\<rfloor>" by (simp add: b64_size_def)
    then show ?thesis using half_floor [OF big] a by simp
  next
    case False
    have "\<not> \<bar>x / 2\<bar> < 2 ^ 52" using x(2) by simp
    then have "b64_size (x / 2) = 0" using False by (simp add: b64_size_def)
    then show ?thesis using a pos by simp
  qed
  then show "(x / 2, x) \<in> measure b64_size" by simp
next
  fix x :: real
  assume x: "x \<noteq> 0" "\<not> 2 ^ 53 \<le> \<bar>x\<bar>" "\<bar>x\<bar> < 2 ^ 52"
  have ax: "0 < \<bar>x\<bar>" using x(1) by simp
  have "2 * \<bar>x\<bar> < 2 ^ 53" using x(3) by simp
  then have big: "2 \<le> 2 ^ 53 / \<bar>x\<bar>" using ax by (simp add: pos_le_divide_eq)
  have a: "b64_size x = nat \<lfloor>2 ^ 53 / \<bar>x\<bar>\<rfloor>" using x by (simp add: b64_size_def)
  have pos: "0 < nat \<lfloor>2 ^ 53 / \<bar>x\<bar>\<rfloor>" using half_floor [OF big] by simp
  have nb: "\<not> 2 ^ 53 \<le> \<bar>2 * x\<bar>" using x(3) by simp
  have "b64_size (2 * x) < b64_size x"
  proof (cases "\<bar>2 * x\<bar> < 2 ^ 52")
    case True
    have "2 ^ 53 / \<bar>2 * x\<bar> = (2 ^ 53 / \<bar>x\<bar>) / 2" by (simp add: abs_mult)
    moreover have "b64_size (2 * x) = nat \<lfloor>2 ^ 53 / \<bar>2 * x\<bar>\<rfloor>"
      using True nb x(1) by (simp add: b64_size_def)
    ultimately have "b64_size (2 * x) = nat \<lfloor>(2 ^ 53 / \<bar>x\<bar>) / 2\<rfloor>" by simp
    then show ?thesis using half_floor [OF big] a by simp
  next
    case False
    then have "b64_size (2 * x) = 0" using nb by (simp add: b64_size_def)
    then show ?thesis using a pos by simp
  qed
  then show "(2 * x, x) \<in> measure b64_size" by simp
qed

declare b64.simps [simp del]

text \<open>The loop \<^verbatim>\<open>for (uint i=0; i<n; ++i) v[i] = g(i);\<close> where \<open>g\<close> does not read \<open>v\<close>.\<close>

definition for_assign :: "nat \<Rightarrow> (nat \<Rightarrow> 'a) \<Rightarrow> 'a list \<Rightarrow> 'a list" where
  "for_assign n g v = fold (\<lambda>i w. w[i := g i]) [0..<n] v"

section \<open>Global time step: \<^verbatim>\<open>min_dt\<close> and \<^verbatim>\<open>validate_dt\<close>\<close>

text \<open>
  \<^verbatim>\<open>min_dt\<close> starts from \<^verbatim>\<open>dt[0]\<close>, runs \<^verbatim>\<open>std::min\<close> over every entry and then
  stores the minimum in every entry.
\<close>

definition min_dt :: "real list \<Rightarrow> real list" where
  "min_dt dt =
     (let m = fold (\<lambda>i acc. std_min acc (dt ! i)) [0..<length dt] (dt ! 0)
      in for_assign (length dt) (\<lambda>_. m) dt)"

text \<open>
  \<^verbatim>\<open>validate_dt\<close> as one rank runs it. The messages are explicit: \<open>inbox\<close> holds what
  rank 0 receives from the ranks \<open>1 .. size-1\<close>, in that order, and \<open>from_root\<close> is
  what another rank receives back from rank 0. On rank 0 every receive overwrites the
  local \<^verbatim>\<open>dti\<close>, and the single \<^verbatim>\<open>dt[0] = std::min(dt[0], dti)\<close> stands after the
  receive loop; \<open>dti0\<close> is the value of the uninitialised \<^verbatim>\<open>dti\<close> when nothing is
  received. Only the branch of the other ranks copies \<^verbatim>\<open>dt[0]\<close> into the entries
  \<open>1 .. dt.size()-1\<close>.
\<close>

definition validate_dt :: "nat \<Rightarrow> real \<Rightarrow> real list \<Rightarrow> real \<Rightarrow> real list \<Rightarrow> real list" where
  "validate_dt rank dti0 inbox from_root dt =
     (if rank \<noteq> 0 then
        (let dt1 = dt[0 := from_root]
         in fold (\<lambda>i w. w[i := w ! 0]) [1..<length dt1] dt1)
      else
        (let dti = fold (\<lambda>x _. x) inbox dti0
         in dt[0 := std_min (dt ! 0) dti]))"

text \<open>
  All ranks together: rank \<open>r > 0\<close> sends its \<^verbatim>\<open>dt[0]\<close> to rank 0, rank 0 sends its
  new \<^verbatim>\<open>dt[0]\<close> to every other rank. The argument lists one \<open>dt\<close> field per rank,
  rank 0 first.
\<close>

definition validate_dt_all :: "real \<Rightarrow> real list list \<Rightarrow> real list list" where
  "validate_dt_all dti0 dts =
     (case dts of
        [] \<Rightarrow> []
      | d0 # ds \<Rightarrow>
          (let root = validate_dt 0 dti0 (map (\<lambda>d. d ! 0) ds) 0 d0
           in root # map (\<lambda>(r, d). validate_dt (Suc r) dti0 [] (root ! 0) d)
                        (enumerate 0 ds)))"

definition global_dt_reduce :: "real \<Rightarrow> real list list \<Rightarrow> real list list" where
  "global_dt_reduce dti0 dts = validate_dt_all dti0 (map min_dt dts)"

section \<open>The mesh\<close>

text \<open>
  Modelled from the spec: the declarations of \<^verbatim>\<open>mesh\<close> and of its channel type in
  \<^verbatim>\<open>fvhyper/mesh.h\<close>. The records list the members of the spec's mesh data model that
  \<^verbatim>\<open>explicit.cpp\<close> reads, under their names there. \<^verbatim>\<open>edgesCells(e, 0)\<close> and
  \<^verbatim>\<open>edgesCells(e, 1)\<close> are the two components of \<open>edgesCells m ! e\<close>, and
  \<open>edgesNodes_cols\<close> is \<^verbatim>\<open>edgesNodes.cols()\<close>, the edge count that \<^verbatim>\<open>calc_gradients\<close>
  and \<^verbatim>\<open>calc_time_derivatives\<close> loop to. A boundary kernel receives the owned cell's
  state and the edge normal and returns the \<open>V\<close> values it writes into the ghost cell;
  the flux kernel returns the edge flux \<^verbatim>\<open>f\<close>. Cell and edge indices are natural
  numbers.
\<close>

type_synonym bound_kernel = "real list \<Rightarrow> real \<times> real \<Rightarrow> real list"

type_synonym flux_kernel =
  "real list \<Rightarrow> real list \<Rightarrow> real list \<Rightarrow> real list \<Rightarrow> real list \<Rightarrow> real list \<Rightarrow>
   real list \<Rightarrow> real list \<Rightarrow> real \<times> real \<Rightarrow> real \<times> real \<Rightarrow> real \<times> real \<Rightarrow> real \<Rightarrow> real \<Rightarrow> real list"

record comm =
  out_rank :: nat
  snd_indices :: "nat list"
  rec_indices :: "nat list"
  snd_q :: "real list"
  rec_q :: "real list"

record mesh =
  nRealCells :: nat
  cellsAreas :: "real list"
  cellsCentersX :: "real list"
  cellsCentersY :: "real list"
  cellsIsGhost :: "bool list"
  edgesNodes_cols :: nat
  edgesCells :: "(nat \<times> nat) list"
  edgesNormalsX :: "real list"
  edgesNormalsY :: "real list"
  edgesLengths :: "real list"
  edgesCentersX :: "real list"
  edgesCentersY :: "real list"
  boundaryEdges :: "nat list"
  boundaryFuncs :: "bound_kernel list"
  comms :: "comm list"

text \<open>The \<open>V\<close> values a kernel reads through the pointer \<^verbatim>\<open>&v[vars*c]\<close>.\<close>

definition cell_slice :: "nat \<Rightarrow> real list \<Rightarrow> nat \<Rightarrow> real list" where
  "cell_slice V v c = map (\<lambda>k. v ! (V * c + k)) [0..<V]"

text \<open>A cell is owned when its index is below \<^verbatim>\<open>nRealCells\<close> and it is not flagged.\<close>

definition owned :: "mesh \<Rightarrow> nat \<Rightarrow> bool" where
  "owned m c = (c < nRealCells m \<and> \<not> cellsIsGhost m ! c)"

section \<open>Gradients: \<^verbatim>\<open>calc_gradients\<close>\<close>

definition grad_edge :: "nat \<Rightarrow> mesh \<Rightarrow> real list \<Rightarrow> nat \<Rightarrow> real list \<times> real list \<Rightarrow> real list \<times> real list" where
  "grad_edge V m q e g =
     (let i = fst (edgesCells m ! e); j = snd (edgesCells m ! e);
          nx = edgesNormalsX m ! e; ny = edgesNormalsY m ! e; le = edgesLengths m ! e
      in if i \<noteq> j then
           fold (\<lambda>k (gx, gy).
                  let f = (q ! (V * i + k) + q ! (V * j + k)) * 0.5 * le;
                      gx1 = gx[V * i + k := gx ! (V * i + k) + f * nx];
                      gy1 = gy[V * i + k := gy ! (V * i + k) + f * ny];
                      gx2 = gx1[V * j + k := gx1 ! (V * j + k) - f * nx];
                      gy2 = gy1[V * j + k := gy1 ! (V * j + k) - f * ny]
                  in (gx2, gy2))
                [0..<V] g
         else g)"

definition grad_normalize :: "nat \<Rightarrow> mesh \<Rightarrow> nat \<Rightarrow> real list \<times> real list \<Rightarrow> real list \<times> real list" where
  "grad_normalize V m i g =
     (let invA = 1 / cellsAreas m ! i
      in fold (\<lambda>k (gx, gy).
                (gx[V * i + k := gx ! (V * i + k) * invA],
                 gy[V * i + k := gy ! (V * i + k) * invA]))
              [0..<V] g)"

definition grad_zero :: "nat \<Rightarrow> nat \<Rightarrow> real list \<times> real list \<Rightarrow> real list \<times> real list" where
  "grad_zero V i g =
     fold (\<lambda>k (gx, gy). (gx[V * i + k := 0], gy[V * i + k := 0])) [0..<V] g"

definition calc_gradients :: "nat \<Rightarrow> mesh \<Rightarrow> real list \<Rightarrow> real list \<times> real list \<Rightarrow> real list \<times> real list" where
  "calc_gradients V m q g =
     (let n = length (fst g);
          g0 = (for_assign n (\<lambda>_. 0) (fst g), for_assign n (\<lambda>_. 0) (snd g));
          g1 = fold (grad_edge V m q) [0..<edgesNodes_cols m] g0;
          g2 = fold (grad_normalize V m) [0..<nRealCells m] g1
      in fold (grad_zero V) [nRealCells m..<length (cellsAreas m)] g2)"

section \<open>Limiters: \<^verbatim>\<open>calc_limiters\<close>\<close>

text \<open>
  The Michalak \<^verbatim>\<open>limiter_func\<close> of the forward-step example. Every operation is
  rounded, in the order in which C++ evaluates the expressions: \<^verbatim>\<open>-3.0/2.0*a*yt\<close> is
  \<^verbatim>\<open>((-3.0/2.0)*a)*yt\<close> and \<^verbatim>\<open>a*y*y*y + b*y*y + y\<close> is
  \<^verbatim>\<open>((((a*y)*y)*y) + ((b*y)*y)) + y\<close>.
\<close>

definition limiter_func_michalak :: "real \<Rightarrow> real" where
  "limiter_func_michalak y =
     (let yt = 2
      in if y \<ge> yt then 1
         else (let a = b64 (b64 (1 / b64 (yt * yt)) - b64 (2 / b64 (b64 (yt * yt) * yt)));
                   b = b64 (b64 (b64 (b64 (- 3 / 2) * a) * yt) - b64 (0.5 / yt))
               in b64 (b64 (b64 (b64 (b64 (a * y) * y) * y) + b64 (b64 (b * y) * y)) + y)))"

text \<open>
  The value \<^verbatim>\<open>lim\<close> that one edge proposes for one entry of one cell. \<open>tol\<close> is the
  double that the literal \<^verbatim>\<open>1e-15\<close> denotes, \<open>2535301200456459 / 2^101\<close>. The cubic
  \<^verbatim>\<open>2.0*y*y*y - 3.0*y*y + 1.0\<close> is \<^verbatim>\<open>((((2.0*y)*y)*y) - ((3.0*y)*y)) + 1.0\<close>, and the
  blend \<^verbatim>\<open>sig + (1 - sig)*lim\<close> rounds the difference, the product and the sum.
\<close>

definition edge_limiter :: "(real \<Rightarrow> real) \<Rightarrow> real \<Rightarrow> real \<Rightarrow> real \<Rightarrow> real \<Rightarrow> real" where
  "edge_limiter lf area dqg delta_max delta_min =
     (let tol = 2535301200456459 / 2 ^ 101;
          Ka = b64 (1 * b64 (sqrt area));
          K3a = b64 (b64 (Ka * Ka) * Ka);
          dMaxMin2 = b64 (b64 (delta_max - delta_min) * b64 (delta_max - delta_min));
          sig = (if dMaxMin2 \<le> K3a then 1
                 else if dMaxMin2 < b64 (2 * K3a) then
                   (let y = b64 (b64 (dMaxMin2 / K3a) - 1)
                    in b64 (b64 (b64 (b64 (b64 (2 * y) * y) * y) - b64 (b64 (3 * y) * y)) + 1))
                 else 0);
          lim = (if dqg > tol then lf (b64 (delta_max / dqg))
                 else if dqg < - tol then lf (b64 (delta_min / dqg))
                 else 1)
      in b64 (sig + b64 (b64 (1 - sig) * lim)))"

definition minmax_edge :: "nat \<Rightarrow> mesh \<Rightarrow> real list \<Rightarrow> nat \<Rightarrow> real list \<times> real list \<Rightarrow> real list \<times> real list" where
  "minmax_edge V m q e mm =
     (let i = fst (edgesCells m ! e); j = snd (edgesCells m ! e)
      in fold (\<lambda>k (qmin, qmax).
                let qmin1 = qmin[V * i + k := std_min (qmin ! (V * i + k)) (q ! (V * j + k))];
                    qmin2 = qmin1[V * j + k := std_min (qmin1 ! (V * j + k)) (q ! (V * i + k))];
                    qmax1 = qmax[V * i + k := std_max (qmax ! (V * i + k)) (q ! (V * j + k))];
                    qmax2 = qmax1[V * j + k := std_max (qmax1 ! (V * j + k)) (q ! (V * i + k))]
                in (qmin2, qmax2))
              [0..<V] mm)"

definition limiter_cell ::
  "nat \<Rightarrow> (real \<Rightarrow> real) \<Rightarrow> mesh \<Rightarrow> real list \<Rightarrow> real list \<Rightarrow> real list \<Rightarrow> real list \<Rightarrow> real list \<Rightarrow>
   nat \<Rightarrow> nat \<Rightarrow> real list \<Rightarrow> real list" where
  "limiter_cell V lf m q gx gy qmin qmax e id_c limiters =
     (if id_c < nRealCells m \<and> \<not> cellsIsGhost m ! id_c then
        (let dx = b64 (edgesCentersX m ! e - cellsCentersX m ! id_c);
             dy = b64 (edgesCentersY m ! e - cellsCentersY m ! id_c);
             area = cellsAreas m ! id_c
         in fold (\<lambda>k lims.
                   let dqg = b64 (b64 (gx ! (V * id_c + k) * dx) + b64 (gy ! (V * id_c + k) * dy));
                       delta_max = b64 (qmax ! (V * id_c + k) - q ! (V * id_c + k));
                       delta_min = b64 (qmin ! (V * id_c + k) - q ! (V * id_c + k));
                       lim = edge_limiter lf area dqg delta_max delta_min
                   in lims[V * id_c + k := std_min (lims ! (V * id_c + k)) lim])
                 [0..<V] limiters)
      else limiters)"

definition limiter_edge ::
  "nat \<Rightarrow> (real \<Rightarrow> real) \<Rightarrow> mesh \<Rightarrow> real list \<Rightarrow> real list \<Rightarrow> real list \<Rightarrow> real list \<Rightarrow> real list \<Rightarrow>
   nat \<Rightarrow> real list \<Rightarrow> real list" where
  "limiter_edge V lf m q gx gy qmin qmax e limiters =
     (let i = fst (edgesCells m ! e); j = snd (edgesCells m ! e)
      in fold (limiter_cell V lf m q gx gy qmin qmax e) [i, j] limiters)"

text \<open>The three vectors the function writes are \<open>(limiters, qmin, qmax)\<close>.\<close>

definition calc_limiters ::
  "nat \<Rightarrow> (real \<Rightarrow> real) \<Rightarrow> mesh \<Rightarrow> real list \<Rightarrow> real list \<Rightarrow> real list \<Rightarrow>
   real list \<times> real list \<times> real list \<Rightarrow> real list \<times> real list \<times> real list" where
  "calc_limiters V lf m q gx gy s =
     (case s of (limiters, qmin, qmax) \<Rightarrow>
        (let lim0 = for_assign (length limiters) (\<lambda>_. 1) limiters;
             qmin0 = for_assign (length q) (\<lambda>i. q ! i) qmin;
             qmax0 = for_assign (length q) (\<lambda>i. q ! i) qmax;
             mm = fold (minmax_edge V m q) [0..<length (edgesLengths m)] (qmin0, qmax0);
             lim1 = fold (limiter_edge V lf m q gx gy (fst mm) (snd mm))
                      [0..<length (edgesLengths m)] lim0
         in (lim1, fst mm, snd mm)))"

section \<open>Time derivatives: \<^verbatim>\<open>calc_time_derivatives\<close> and \<^verbatim>\<open>update_cells\<close>\<close>

definition flux_edge ::
  "nat \<Rightarrow> flux_kernel \<Rightarrow> mesh \<Rightarrow> real list \<Rightarrow> real list \<Rightarrow> real list \<Rightarrow> real list \<Rightarrow> nat \<Rightarrow> real list" where
  "flux_edge V calc_flux m q gx gy limiters e =
     (let i = fst (edgesCells m ! e); j = snd (edgesCells m ! e);
          n = (edgesNormalsX m ! e, edgesNormalsY m ! e);
          cx = edgesCentersX m ! e; cy = edgesCentersY m ! e;
          di = (cx - cellsCentersX m ! i, cy - cellsCentersY m ! i);
          dj = (cx - cellsCentersX m ! j, cy - cellsCentersY m ! j)
      in calc_flux (cell_slice V q i) (cell_slice V q j)
           (cell_slice V gx i) (cell_slice V gy i) (cell_slice V gx j) (cell_slice V gy j)
           (cell_slice V limiters i) (cell_slice V limiters j)
           n di dj (cellsAreas m ! i) (edgesLengths m ! e))"

definition qt_edge ::
  "nat \<Rightarrow> flux_kernel \<Rightarrow> mesh \<Rightarrow> real list \<Rightarrow> real list \<Rightarrow> real list \<Rightarrow> real list \<Rightarrow> nat \<Rightarrow>
   real list \<Rightarrow> real list" where
  "qt_edge V calc_flux m q gx gy limiters e qt =
     (let i = fst (edgesCells m ! e); j = snd (edgesCells m ! e);
          le = edgesLengths m ! e;
          f = flux_edge V calc_flux m q gx gy limiters e
      in fold (\<lambda>k w.
                let w1 = w[V * i + k := w ! (V * i + k) - f ! k * le]
                in w1[V * j + k := w1 ! (V * j + k) + f ! k * le])
              [0..<V] qt)"

definition qt_finalize :: "nat \<Rightarrow> mesh \<Rightarrow> nat \<Rightarrow> real list \<Rightarrow> real list" where
  "qt_finalize V m i qt =
     (if i \<ge> nRealCells m then fold (\<lambda>k w. w[V * i + k := 0]) [0..<V] qt
      else if cellsIsGhost m ! i then fold (\<lambda>k w. w[V * i + k := 0]) [0..<V] qt
      else (let invA = 1 / cellsAreas m ! i
            in fold (\<lambda>k w. w[V * i + k := w ! (V * i + k) * invA]) [0..<V] qt))"

definition calc_time_derivatives ::
  "nat \<Rightarrow> flux_kernel \<Rightarrow> mesh \<Rightarrow> real list \<Rightarrow> real list \<Rightarrow> real list \<Rightarrow> real list \<Rightarrow>
   real list \<Rightarrow> real list" where
  "calc_time_derivatives V calc_flux m q gx gy limiters qt =
     (let qt0 = for_assign (length qt) (\<lambda>_. 0) qt;
          qt1 = fold (qt_edge V calc_flux m q gx gy limiters) [0..<edgesNodes_cols m] qt0
      in fold (qt_finalize V m) [0..<length (cellsAreas m)] qt1)"

text \<open>\<^verbatim>\<open>update_cells(q, ql, qt, dt, v)\<close> writes \<open>q\<close>; the driver passes \<^verbatim>\<open>qk\<close> for it and
  its own \<^verbatim>\<open>q\<close> for \<open>ql\<close>.\<close>

definition update_cells :: "real list \<Rightarrow> real list \<Rightarrow> real list \<Rightarrow> real list \<Rightarrow> real \<Rightarrow> real list" where
  "update_cells q ql qt dt v = for_assign (length q) (\<lambda>i. ql ! i + qt ! i * dt ! i * v) q"

section \<open>Boundary conditions: \<^verbatim>\<open>update_bounds\<close>\<close>

definition write_cell :: "nat \<Rightarrow> nat \<Rightarrow> real list \<Rightarrow> real list \<Rightarrow> real list" where
  "write_cell V c b q = fold (\<lambda>k w. w[V * c + k := b ! k]) [0..<V] q"

definition bound_edge :: "nat \<Rightarrow> mesh \<Rightarrow> nat \<Rightarrow> real list \<Rightarrow> real list" where
  "bound_edge V m i q =
     (let e = boundaryEdges m ! i;
          n = (edgesNormalsX m ! e, edgesNormalsY m ! e);
          b = (boundaryFuncs m ! i) (cell_slice V q (fst (edgesCells m ! e))) n
      in write_cell V (snd (edgesCells m ! e)) b q)"

definition update_bounds :: "nat \<Rightarrow> mesh \<Rightarrow> real list \<Rightarrow> real list" where
  "update_bounds V m q = fold (bound_edge V m) [0..<length (boundaryEdges m)] q"

section \<open>Halo exchange: \<^verbatim>\<open>update_comms\<close>\<close>

text \<open>
  The calls the function makes to the message-passing library, in the order it makes
  them. \<open>MPI_Wait\<close> is the call that blocks until a request has completed; the others
  are the three the function uses.
\<close>

datatype mpi_call =
    MPI_Isend nat "real list" nat
  | MPI_Recv nat
  | MPI_Request_free nat
  | MPI_Wait nat

definition pack_comm :: "nat \<Rightarrow> real list \<Rightarrow> comm \<Rightarrow> comm" where
  "pack_comm V q c =
     c\<lparr>snd_q :=
         fold (\<lambda>(iter, i) buf. fold (\<lambda>j w. w[V * iter + j := q ! (V * i + j)]) [0..<V] buf)
              (enumerate 0 (snd_indices c)) (snd_q c)\<rparr>"

definition unpack_comm :: "nat \<Rightarrow> comm \<Rightarrow> real list \<Rightarrow> real list" where
  "unpack_comm V c q =
     fold (\<lambda>(iter, i) v. fold (\<lambda>j w. w[V * i + j := rec_q c ! (V * iter + j)]) [0..<V] v)
          (enumerate 0 (rec_indices c)) q"

text \<open>
  \<open>rx ! k\<close> is the message that the blocking receive of channel \<open>k\<close> stores in the
  channel's receive buffer. The result is the field, the mesh with its channel buffers
  updated, and the calls made: one \<open>MPI_Isend\<close> per channel on request \<open>k\<close>, then one
  \<open>MPI_Recv\<close> per channel, then one \<open>MPI_Request_free\<close> per request.
\<close>

definition update_comms ::
  "nat \<Rightarrow> real list list \<Rightarrow> real list \<times> mesh \<Rightarrow> real list \<times> mesh \<times> mpi_call list" where
  "update_comms V rx s =
     (case s of (q, m) \<Rightarrow>
        (let cs1 = map (pack_comm V q) (comms m);
             sends = map (\<lambda>(k, c). MPI_Isend k (snd_q c) (out_rank c)) (enumerate 0 cs1);
             cs2 = map (\<lambda>(k, c). c\<lparr>rec_q := rx ! k\<rparr>) (enumerate 0 cs1);
             q2 = fold (unpack_comm V) cs2 q;
             recvs = map (\<lambda>c. MPI_Recv (out_rank c)) cs2;
             frees = map MPI_Request_free [0..<length (comms m)]
         in (q2, m\<lparr>comms := cs2\<rparr>, sends @ recvs @ frees)))"

section \<open>Residuals: \<^verbatim>\<open>calc_residuals\<close>\<close>

text \<open>The local sums, which every rank but rank 0 sends to rank 0.\<close>

definition residual_partial :: "nat \<Rightarrow> mesh \<Rightarrow> real list \<Rightarrow> real list \<Rightarrow> real list" where
  "residual_partial V m qt R =
     (let R0 = for_assign V (\<lambda>_. 0) R
      in fold (\<lambda>i R1.
                if \<not> cellsIsGhost m ! i then
                  fold (\<lambda>j w. w[j := w ! j + qt ! (V * i + j) * qt ! (V * i + j) * cellsAreas m ! i])
                       [0..<V] R1
                else R1)
              [0..<nRealCells m] R0)"

text \<open>
  One rank's run. \<open>inbox\<close> holds the partial sums rank 0 receives from the ranks
  \<open>1 .. size-1\<close>, in that order; \<open>from_root\<close> is what another rank receives from rank 0
  at the end, which replaces the square roots it took of its own sums.
\<close>

definition calc_residuals ::
  "nat \<Rightarrow> nat \<Rightarrow> real list list \<Rightarrow> real list \<Rightarrow> mesh \<Rightarrow> real list \<Rightarrow> real list \<Rightarrow> real list" where
  "calc_residuals V rank inbox from_root m qt R =
     (let R1 = residual_partial V m qt R;
          R2 = (if rank \<noteq> 0 then R1
                else fold (\<lambda>R_other R'. fold (\<lambda>j w. w[j := w ! j + R_other ! j]) [0..<V] R')
                       inbox R1);
          R3 = fold (\<lambda>i w. w[i := sqrt (w ! i)]) [0..<V] R2
      in if rank = 0 then R3 else for_assign V (\<lambda>j. from_root ! j) R3)"

text \<open>All ranks together; the argument lists \<open>(mesh, qt, R)\<close> per rank, rank 0 first.\<close>

definition calc_residuals_all ::
  "nat \<Rightarrow> (mesh \<times> real list \<times> real list) list \<Rightarrow> real list list" where
  "calc_residuals_all V ranks =
     (case ranks of
        [] \<Rightarrow> []
      | (m0, qt0, R0) # rest \<Rightarrow>
          (let inbox = map (\<lambda>(m, qt, R). residual_partial V m qt R) rest;
               root = calc_residuals V 0 inbox [] m0 qt0 R0
           in root # map (\<lambda>(r, m, qt, R). calc_residuals V (Suc r) [] root m qt R)
                        (enumerate 0 rest)))"

section \<open>The driver: \<^verbatim>\<open>complete_calc_qt\<close> and \<^verbatim>\<open>run\<close>\<close>

text \<open>
  Modelled from the spec: the declarations of \<^verbatim>\<open>fvhyper/explicit.h\<close>, that is the
  bindings of the user's problem file (the number of variables, the solver switches
  and the kernels that \<^verbatim>\<open>explicit.cpp\<close> calls) and the solver options. The time-step
  rule \<^verbatim>\<open>calc_dt(dt, q, m)\<close> returns the \<open>dt\<close> field it writes. The rank and the size
  of the process pool are arguments \<open>rank\<close> and \<open>pool_size\<close> of the functions that read
  them.
\<close>

record problem =
  vars :: nat
  do_calc_gradients :: bool
  do_calc_limiters :: bool
  global_dt :: bool
  calc_flux :: flux_kernel
  limiter_func :: "real \<Rightarrow> real"
  calc_dt :: "real list \<Rightarrow> real list \<Rightarrow> mesh \<Rightarrow> real list"

record solverOptions =
  max_step :: nat
  max_time :: real
  print_interval :: nat
  tolerance :: real

text \<open>
  The vectors that \<^verbatim>\<open>complete_calc_qt\<close> writes, with the mesh, whose channel buffers
  the halo exchange writes.
\<close>

record work =
  s_qt :: "real list"
  s_gx :: "real list"
  s_gy :: "real list"
  s_qmin :: "real list"
  s_qmax :: "real list"
  s_limiters :: "real list"
  s_mesh :: mesh

text \<open>The messages one rank receives during one stage, one list per exchanged field.\<close>

record stage_rx =
  rx_gx :: "real list list"
  rx_gy :: "real list list"
  rx_limiters :: "real list list"
  rx_qk :: "real list list"

text \<open>The guarded call \<^verbatim>\<open>if (pool.size > 1) update_comms(f, m);\<close> of the driver.\<close>

definition halo :: "nat \<Rightarrow> nat \<Rightarrow> real list list \<Rightarrow> real list \<times> mesh \<Rightarrow> real list \<times> mesh" where
  "halo V pool_size rx s =
     (if pool_size > 1 then
        (case update_comms V rx s of (v, m, calls) \<Rightarrow> (v, m))
      else s)"

definition complete_calc_qt :: "problem \<Rightarrow> nat \<Rightarrow> stage_rx \<Rightarrow> real list \<Rightarrow> work \<Rightarrow> work" where
  "complete_calc_qt P pool_size rx q s =
     (let V = vars P;
          s1 = (if do_calc_gradients P then
                  (let g = calc_gradients V (s_mesh s) q (s_gx s, s_gy s);
                       hx = halo V pool_size (rx_gx rx) (fst g, s_mesh s);
                       hy = halo V pool_size (rx_gy rx) (snd g, snd hx)
                   in s\<lparr>s_gx := fst hx, s_gy := fst hy, s_mesh := snd hy\<rparr>)
                else s);
          s2 = (if do_calc_limiters P then
                  (let l = calc_limiters V (limiter_func P) (s_mesh s1) q (s_gx s1) (s_gy s1)
                             (s_limiters s1, s_qmin s1, s_qmax s1);
                       hl = halo V pool_size (rx_limiters rx) (fst l, s_mesh s1)
                   in s1\<lparr>s_limiters := fst hl, s_qmin := fst (snd l), s_qmax := snd (snd l),
                          s_mesh := snd hl\<rparr>)
                else s1)
      in s2\<lparr>s_qt := calc_time_derivatives V (calc_flux P) (s_mesh s2) q (s_gx s2) (s_gy s2)
                       (s_limiters s2) (s_qt s2)\<rparr>)"

text \<open>
  The variables of \<^verbatim>\<open>run\<close>, and the messages one rank receives during one pass of its
  loop: for the halo exchange of \<open>dt\<close>, for \<^verbatim>\<open>validate_dt\<close>, for each stage, and for
  \<^verbatim>\<open>calc_residuals\<close>.
\<close>

record solver =
  r_q :: "real list"
  r_qk :: "real list"
  r_dt :: "real list"
  r_work :: work
  r_R0 :: "real list"
  r_R :: "real list"
  r_step :: nat
  r_time :: real

record step_rx =
  rx_dt :: "real list list"
  vd_dti0 :: real
  vd_inbox :: "real list"
  vd_from_root :: real
  rx_stage :: "nat \<Rightarrow> stage_rx"
  res_inbox :: "real list list"
  res_from_root :: "real list"

definition alpha :: "real list" where
  "alpha = [0.05, 0.125, 0.25, 0.5, 1]"

text \<open>One stage: \<^verbatim>\<open>complete_calc_qt\<close>, \<^verbatim>\<open>update_cells\<close>, and the halo exchange of \<^verbatim>\<open>qk\<close>.\<close>

definition rk_stage ::
  "problem \<Rightarrow> nat \<Rightarrow> (nat \<Rightarrow> stage_rx) \<Rightarrow> real list \<Rightarrow> real list \<Rightarrow> nat \<times> real \<Rightarrow>
   real list \<times> work \<Rightarrow> real list \<times> work" where
  "rk_stage P pool_size rx q dt na s =
     (case s of (qk, w) \<Rightarrow>
        (let w1 = complete_calc_qt P pool_size (rx (fst na)) qk w;
             qk1 = update_cells qk q (s_qt w1) dt (snd na);
             h = halo (vars P) pool_size (rx_qk (rx (fst na))) (qk1, s_mesh w1)
         in (fst h, w1\<lparr>s_mesh := snd h\<rparr>)))"

text \<open>
  The part of the loop body that advances the solution: boundary conditions, the time
  step with its reduction, the copy into \<^verbatim>\<open>qk\<close>, the stages, and the copy back.
\<close>

definition time_step :: "problem \<Rightarrow> nat \<Rightarrow> nat \<Rightarrow> step_rx \<Rightarrow> solver \<Rightarrow> solver" where
  "time_step P rank pool_size env st =
     (let V = vars P;
          q1 = update_bounds V (s_mesh (r_work st)) (r_q st);
          dt1 = calc_dt P (r_dt st) q1 (s_mesh (r_work st));
          hd = halo V pool_size (rx_dt env) (dt1, s_mesh (r_work st));
          dt3 = (if global_dt P then
                   (let dt2 = min_dt (fst hd)
                    in if pool_size > 1 then
                         validate_dt rank (vd_dti0 env) (vd_inbox env) (vd_from_root env) dt2
                       else dt2)
                 else fst hd);
          qk0 = for_assign (length q1) (\<lambda>i. q1 ! i) (r_qk st);
          w0 = (r_work st)\<lparr>s_mesh := snd hd\<rparr>;
          qw = fold (rk_stage P pool_size (rx_stage env) q1 dt3) (enumerate 0 alpha) (qk0, w0);
          q2 = for_assign (length q1) (\<lambda>i. fst qw ! i) q1
      in st\<lparr>r_q := q2, r_qk := fst qw, r_dt := dt3, r_work := snd qw\<rparr>)"

text \<open>The residual update of the loop body and the advance of \<^verbatim>\<open>step\<close> and \<^verbatim>\<open>time\<close>.\<close>

definition update_residuals :: "problem \<Rightarrow> solverOptions \<Rightarrow> nat \<Rightarrow> step_rx \<Rightarrow> solver \<Rightarrow> solver" where
  "update_residuals P opt rank env st =
     (let V = vars P; m = s_mesh (r_work st); qt = s_qt (r_work st)
      in if r_step st = 0 then
           (let R0 = calc_residuals V rank (res_inbox env) (res_from_root env) m qt (r_R0 st)
            in st\<lparr>r_R0 := R0, r_R := for_assign V (\<lambda>i. R0 ! i) (r_R st)\<rparr>)
         else if r_step st mod print_interval opt = 0 \<or> tolerance opt > 1.01 / 10 ^ 16 then
           (let R1 = calc_residuals V rank (res_inbox env) (res_from_root env) m qt (r_R st)
            in st\<lparr>r_R := fold (\<lambda>i w. w[i := w ! i / r_R0 st ! i]) [0..<V] R1\<rparr>)
         else st)"

definition run_body :: "problem \<Rightarrow> solverOptions \<Rightarrow> nat \<Rightarrow> nat \<Rightarrow> step_rx \<Rightarrow> solver \<Rightarrow> solver" where
  "run_body P opt rank pool_size env st =
     (let st1 = time_step P rank pool_size env st;
          st2 = update_residuals P opt rank env st1
      in st2\<lparr>r_step := r_step st + 1,
             r_time := (if global_dt P then r_time st + r_dt st2 ! 0 else r_time st)\<rparr>)"

text \<open>The convergence check at the top of the loop.\<close>

definition Rmax_of :: "nat \<Rightarrow> solver \<Rightarrow> real" where
  "Rmax_of V st =
     (if r_step st > 0 then fold (\<lambda>i Rmax. std_max (r_R st ! i) Rmax) [0..<V] 0 else 1)"

definition loop_stops :: "nat \<Rightarrow> solverOptions \<Rightarrow> solver \<Rightarrow> bool" where
  "loop_stops V opt st =
     (r_step st \<ge> max_step opt \<or> r_time st \<ge> max_time opt \<or> Rmax_of V st < tolerance opt)"

lemma run_body_step: "r_step (run_body P opt rank pool_size env st) = Suc (r_step st)"
  by (simp add: run_body_def Let_def)

text \<open>
  The loop of \<^verbatim>\<open>run\<close>, from the state the driver has built before it (\<open>step = 0\<close>,
  \<open>time = 0\<close>, every \<open>R[i] = 1\<close>); \<open>env n\<close> holds the messages of the pass with
  \<open>step = n\<close>.
\<close>

function run_loop ::
  "problem \<Rightarrow> solverOptions \<Rightarrow> nat \<Rightarrow> nat \<Rightarrow> (nat \<Rightarrow> step_rx) \<Rightarrow> solver \<Rightarrow> solver" where
  "run_loop P opt rank pool_size env st =
     (if loop_stops (vars P) opt st then st
      else run_loop P opt rank pool_size env
             (run_body P opt rank pool_size (env (r_step st)) st))"
  by pat_completeness auto
termination
  by (relation "measure (\<lambda>(P, opt, rank, pool_size, env, st). max_step opt - r_step st)")
     (auto simp: run_body_step loop_stops_def)

declare run_loop.simps [simp del]

text \<open>The state after \<open>n\<close> passes of the loop body, with no test in between.\<close>

primrec run_passes ::
  "problem \<Rightarrow> solverOptions \<Rightarrow> nat \<Rightarrow> nat \<Rightarrow> (nat \<Rightarrow> step_rx) \<Rightarrow> nat \<Rightarrow> solver \<Rightarrow> solver" where
  "run_passes P opt rank pool_size env 0 st = st"
| "run_passes P opt rank pool_size env (Suc n) st =
     run_passes P opt rank pool_size env n (run_body P opt rank pool_size (env (r_step st)) st)"

section \<open>A small mesh for concrete runs\<close>

text \<open>
  Three cells in a row with one variable per cell: cells 0 and 1 are owned, cell 2 is
  the ghost of the boundary edge \<open>(1, 2)\<close>, whose kernel copies the owned state.
\<close>

definition ex_mesh :: mesh where
  "ex_mesh = \<lparr>nRealCells = 2, cellsAreas = [1, 1, 1], cellsCentersX = [0, 1, 2],
     cellsCentersY = [0, 0, 0], cellsIsGhost = [False, False, True], edgesNodes_cols = 2,
     edgesCells = [(0, 1), (1, 2)], edgesNormalsX = [1, 1], edgesNormalsY = [0, 0],
     edgesLengths = [1, 1], edgesCentersX = [1 / 2, 3 / 2], edgesCentersY = [0, 0],
     boundaryEdges = [1], boundaryFuncs = [\<lambda>q n. q], comms = []\<rparr>"

text \<open>A problem with one variable, the upwind flux of the left state and a constant time step.\<close>

definition ex_flux :: flux_kernel where
  "ex_flux qi qj gxi gyi gxj gyj li lj n di dj area le = qi"

definition ex_problem :: problem where
  "ex_problem = \<lparr>vars = 1, do_calc_gradients = True, do_calc_limiters = True,
     global_dt = True, calc_flux = ex_flux, limiter_func = limiter_func_michalak,
     calc_dt = (\<lambda>dt q m. map (\<lambda>_. 1 / 10) dt)\<rparr>"

definition ex_work :: work where
  "ex_work = \<lparr>s_qt = [7, 7, 7], s_gx = [0, 0, 0], s_gy = [0, 0, 0], s_qmin = [0, 0, 0],
     s_qmax = [0, 0, 0], s_limiters = [0, 0, 0], s_mesh = ex_mesh\<rparr>"

definition ex_stage_rx :: stage_rx where
  "ex_stage_rx = \<lparr>rx_gx = [], rx_gy = [], rx_limiters = [], rx_qk = []\<rparr>"

text \<open>
  Two cells that both lie below \<^verbatim>\<open>nRealCells\<close>, joined by one edge; cell 1 carries the
  ghost flag, as a cell received from a neighbour rank does.
\<close>

definition ex_mesh_halo :: mesh where
  "ex_mesh_halo = \<lparr>nRealCells = 2, cellsAreas = [1, 1], cellsCentersX = [0, 1],
     cellsCentersY = [0, 0], cellsIsGhost = [False, True], edgesNodes_cols = 1,
     edgesCells = [(0, 1)], edgesNormalsX = [1], edgesNormalsY = [0],
     edgesLengths = [1], edgesCentersX = [1 / 2], edgesCentersY = [0],
     boundaryEdges = [], boundaryFuncs = [], comms = []\<rparr>"

section \<open>Invariants of the limiter loops\<close>


section \<open>Boundary bindings\<close>

text \<open>
  The data model pairs, on every boundary edge, an owned cell \<^verbatim>\<open>edgesCells(e, 0)\<close> with
  a ghost cell \<^verbatim>\<open>edgesCells(e, 1)\<close> of the mesh. \<open>bnd_src\<close> and \<open>bnd_dst\<close> name the
  two cells of binding \<open>i\<close>; \<open>same_on_cells\<close> says that two fields agree on a set of
  cells.
\<close>

abbreviation bnd_src :: "mesh \<Rightarrow> nat \<Rightarrow> nat" where
  "bnd_src m i \<equiv> fst (edgesCells m ! (boundaryEdges m ! i))"

abbreviation bnd_dst :: "mesh \<Rightarrow> nat \<Rightarrow> nat" where
  "bnd_dst m i \<equiv> snd (edgesCells m ! (boundaryEdges m ! i))"

definition boundary_pairs_ok :: "mesh \<Rightarrow> bool" where
  "boundary_pairs_ok m =
     (\<forall>i<length (boundaryEdges m).
        owned m (fst (edgesCells m ! (boundaryEdges m ! i))) \<and>
        \<not> owned m (snd (edgesCells m ! (boundaryEdges m ! i))) \<and>
        snd (edgesCells m ! (boundaryEdges m ! i)) < length (cellsAreas m))"

definition same_on_cells :: "nat \<Rightarrow> nat set \<Rightarrow> real list \<Rightarrow> real list \<Rightarrow> bool" where
  "same_on_cells V C u v = (\<forall>c\<in>C. \<forall>k<V. u ! (V * c + k) = v ! (V * c + k))"

section \<open>The residual sum\<close>

text \<open>The term that cell \<open>c\<close> adds to the local sum \<^verbatim>\<open>R[k]\<close> in \<^verbatim>\<open>calc_residuals\<close>.\<close>

definition cell_term :: "nat \<Rightarrow> mesh \<Rightarrow> real list \<Rightarrow> nat \<Rightarrow> nat \<Rightarrow> real" where
  "cell_term V m qt k c =
     (if cellsIsGhost m ! c then 0 else qt ! (V * c + k) * qt ! (V * c + k) * cellsAreas m ! c)"

section \<open>Completion of sends\<close>

text \<open>
  A posted send has been waited for when a later call is \<open>MPI_Wait\<close> on its request;
  \<open>sends_completed\<close> says so of every \<open>MPI_Isend\<close> in a sequence of calls.
\<close>

fun waited :: "nat \<Rightarrow> mpi_call list \<Rightarrow> bool" where
  "waited k [] = False"
| "waited k (c # cs) = (c = MPI_Wait k \<or> waited k cs)"

fun sends_completed :: "mpi_call list \<Rightarrow> bool" where
  "sends_completed [] = True"
| "sends_completed (MPI_Isend k p d # cs) = (waited k cs \<and> sends_completed cs)"
| "sends_completed (MPI_Recv s # cs) = sends_completed cs"
| "sends_completed (MPI_Request_free k # cs) = sends_completed cs"
| "sends_completed (MPI_Wait k # cs) = sends_completed cs"

text \<open>
  One owned cell and one ghost cell that a single channel to rank 1 fills: the channel
  sends cell 0 and receives cell 1.
\<close>

definition ex_mesh_comm :: mesh where
  "ex_mesh_comm = \<lparr>nRealCells = 1, cellsAreas = [1, 1], cellsCentersX = [0, 1],
     cellsCentersY = [0, 0], cellsIsGhost = [False, True], edgesNodes_cols = 1,
     edgesCells = [(0, 1)], edgesNormalsX = [1], edgesNormalsY = [0],
     edgesLengths = [1], edgesCentersX = [1 / 2], edgesCentersY = [0],
     boundaryEdges = [], boundaryFuncs = [],
     comms = [\<lparr>out_rank = 1, snd_indices = [0], rec_indices = [1], snd_q = [0], rec_q = [0]\<rparr>]\<rparr>"

text \<open>Options, messages and a start state for a run of one pass on one rank.\<close>

definition ex_options :: solverOptions where
  "ex_options = \<lparr>max_step = 1, max_time = 10, print_interval = 1, tolerance = 1 / 10 ^ 12\<rparr>"

definition ex_step_rx :: step_rx where
  "ex_step_rx = \<lparr>rx_dt = [], vd_dti0 = 0, vd_inbox = [], vd_from_root = 0,
     rx_stage = (\<lambda>_. ex_stage_rx), res_inbox = [], res_from_root = []\<rparr>"

definition ex_solver :: solver where
  "ex_solver = \<lparr>r_q = [1, 2, 3], r_qk = [0, 0, 0], r_dt = [0, 0, 0], r_work = ex_work,
     r_R0 = [0], r_R = [1], r_step = 0, r_time = 0\<rparr>"

section \<open>Conservation: totals and the closed domain\<close>

text \<open>
  The total of variable \<open>k\<close> weighted by the cell areas, over all cells of the mesh and
  over its owned cells.
\<close>

definition total_all :: "nat \<Rightarrow> mesh \<Rightarrow> nat \<Rightarrow> real list \<Rightarrow> real" where
  "total_all V m k v = (\<Sum>c<length (cellsAreas m). cellsAreas m ! c * v ! (V * c + k))"

definition total_owned :: "nat \<Rightarrow> mesh \<Rightarrow> nat \<Rightarrow> real list \<Rightarrow> real" where
  "total_owned V m k v =
     (\<Sum>c<length (cellsAreas m). if owned m c then cellsAreas m ! c * v ! (V * c + k) else 0)"

text \<open>
  A domain is closed when every edge joins two owned cells. \<open>mesh_ok\<close> collects what the
  data model says of every mesh: the owned cells are cells of the mesh and have a
  positive area, every boundary binding names an edge of the mesh and pairs an owned
  cell with a ghost cell, and the receive indices of the channels are not owned cells.
  The halo exchange changes the channel buffers of the mesh only: \<open>same_geometry\<close>.
\<close>

definition closed_domain :: "mesh \<Rightarrow> bool" where
  "closed_domain m =
     (\<forall>e<edgesNodes_cols m. owned m (fst (edgesCells m ! e)) \<and> owned m (snd (edgesCells m ! e)))"

definition rec_ok :: "mesh \<Rightarrow> comm list \<Rightarrow> bool" where
  "rec_ok m cs = (\<forall>x\<in>set cs. \<forall>i\<in>set (rec_indices x). \<not> owned m i)"

definition mesh_ok :: "mesh \<Rightarrow> bool" where
  "mesh_ok m =
     (nRealCells m \<le> length (cellsAreas m) \<and>
      (\<forall>c<nRealCells m. 0 < cellsAreas m ! c) \<and>
      boundary_pairs_ok m \<and>
      (\<forall>i<length (boundaryEdges m). boundaryEdges m ! i < edgesNodes_cols m) \<and>
      rec_ok m (comms m))"

definition same_geometry :: "mesh \<Rightarrow> mesh \<Rightarrow> bool" where
  "same_geometry m0 m = (\<exists>cs. m = m0\<lparr>comms := cs\<rparr> \<and> rec_ok m0 cs)"

text \<open>
  The invariant of the edge loop of \<^verbatim>\<open>calc_time_derivatives\<close> on a closed domain: for
  every variable the accumulated entries sum to zero over the cells, and cells that
  are not owned hold zero.
\<close>

definition balanced :: "nat \<Rightarrow> mesh \<Rightarrow> real list \<Rightarrow> bool" where
  "balanced V m w =
     (length w = V * length (cellsAreas m) \<and>
      (\<forall>k<V. (\<Sum>c<length (cellsAreas m). w ! (V * c + k)) = 0) \<and>
      (\<forall>c<length (cellsAreas m). \<not> owned m c \<longrightarrow> (\<forall>k<V. w ! (V * c + k) = 0)))"

text \<open>A closed mesh of two owned cells with areas 1 and 2, and a start state on it.\<close>

definition ex_mesh_closed :: mesh where
  "ex_mesh_closed = \<lparr>nRealCells = 2, cellsAreas = [1, 2], cellsCentersX = [0, 1],
     cellsCentersY = [0, 0], cellsIsGhost = [False, False], edgesNodes_cols = 1,
     edgesCells = [(0, 1)], edgesNormalsX = [1], edgesNormalsY = [0],
     edgesLengths = [1], edgesCentersX = [1 / 2], edgesCentersY = [0],
     boundaryEdges = [], boundaryFuncs = [], comms = []\<rparr>"

definition ex_solver_closed :: solver where
  "ex_solver_closed = \<lparr>r_q = [1, 2], r_qk = [0, 0], r_dt = [0, 0],
     r_work = \<lparr>s_qt = [0, 0], s_gx = [0, 0], s_gy = [0, 0], s_qmin = [0, 0],
       s_qmax = [0, 0], s_limiters = [0, 0], s_mesh = ex_mesh_closed\<rparr>,
     r_R0 = [0], r_R = [1], r_step = 0, r_time = 0\<rparr>"

section \<open>Auxiliary facts about loops and indices\<close>

lemma fold_inv:
  "P s \<Longrightarrow> (\<And>x s. x \<in> set xs \<Longrightarrow> P s \<Longrightarrow> P (f x s)) \<Longrightarrow> P (fold f xs s)"
  by (induction xs arbitrary: s) auto

lemma fold_establish:
  assumes "x \<in> set xs" and "I s"
    and inv: "\<And>y s. y \<in> set xs \<Longrightarrow> I s \<Longrightarrow> I (f y s)"
    and est: "\<And>s. I s \<Longrightarrow> Z (f x s)"
    and keep: "\<And>y s. y \<in> set xs \<Longrightarrow> I s \<Longrightarrow> Z s \<Longrightarrow> Z (f y s)"
  shows "Z (fold f xs s)"
  using assms
proof (induction xs arbitrary: s)
  case Nil
  then show ?case by simp
next
  case (Cons a xs)
  show ?case
  proof (cases "x = a")
    case True
    have start: "I (f a s) \<and> Z (f a s)"
      using Cons.prems True by auto
    have step: "I (f y t) \<and> Z (f y t)" if "y \<in> set xs" "I t \<and> Z t" for y t
      using that Cons.prems(3) [of y t] Cons.prems(5) [of y t] by simp
    have "I (fold f xs (f a s)) \<and> Z (fold f xs (f a s))"
      using start step by (rule fold_inv [where P = "\<lambda>t. I t \<and> Z t"])
    then show ?thesis by simp
  next
    case False
    then have mem: "x \<in> set xs" using Cons.prems by simp
    have i0: "I (f a s)" using Cons.prems by simp
    have "Z (fold f xs (f a s))"
    proof (rule Cons.IH [OF mem i0])
      show "I (f y t)" if "y \<in> set xs" "I t" for y t
        using that Cons.prems(3) [of y t] by simp
      show "Z (f x t)" if "I t" for t
        using that Cons.prems(4) by simp
      show "Z (f y t)" if "y \<in> set xs" "I t" "Z t" for y t
        using that Cons.prems(5) [of y t] by simp
    qed
    then show ?thesis by simp
  qed
qed

lemma nth_upd: "xs[i := v] ! j = (if i = j \<and> j < length xs then v else xs ! j)"
proof (induction xs arbitrary: i j)
  case Nil
  then show ?case by simp
next
  case (Cons x xs)
  then show ?case by (cases i; cases j) simp_all
qed

lemma cell_index_eq:
  "k < V \<Longrightarrow> k' < V \<Longrightarrow> (V * c + k = V * c' + k') = (c = c' \<and> k = (k'::nat))"
proof
  assume kv: "k < V" "k' < V" and eq: "V * c + k = V * c' + k'"
  have "(V * c + k) div V = c" "(V * c' + k') div V = c'"
    using kv by simp_all
  then have "c = c'" using eq by simp
  then show "c = c' \<and> k = k'" using eq by simp
qed simp

lemma length_for_assign [simp]: "length (for_assign n g v) = length v"
  unfolding for_assign_def by (rule fold_inv) simp_all

lemma for_assign_Suc: "for_assign (Suc n) g v = (for_assign n g v)[n := g n]"
  by (simp add: for_assign_def)

lemma nth_for_assign:
  "i < length v \<Longrightarrow> for_assign n g v ! i = (if i < n then g i else v ! i)"
proof (induction n)
  case 0
  then show ?case by (simp add: for_assign_def)
next
  case (Suc n)
  then show ?case
    by (cases "i = n") (simp_all add: for_assign_Suc nth_list_update)
qed


subsection \<open>Writes into one cell\<close>

lemma fold_cell_length:
  assumes "\<And>k w. length (step k w) = length w"
  shows "length (fold step ks w) = length w"
  by (rule fold_inv [where P = "\<lambda>u. length u = length w"]) (simp_all add: assms)

lemma qt_finalize_length [simp]: "length (qt_finalize V m i w) = length w"
  unfolding qt_finalize_def Let_def by (simp add: fold_cell_length)

lemma qt_finalize_zero:
  assumes "\<not> owned m c" "k < V" "V * c + k < length w"
  shows "qt_finalize V m c w ! (V * c + k) = 0"
proof -
  have z: "fold (\<lambda>k w. w[V * c + k := 0]) [0..<V] w ! (V * c + k) = 0"
  proof (rule fold_establish [where x = k and I = "\<lambda>u. length u = length w"
        and Z = "\<lambda>u. u ! (V * c + k) = 0"])
    show "k \<in> set [0..<V]" using assms by simp
  qed (use assms in \<open>simp_all add: nth_upd\<close>)
  show ?thesis
    using assms z by (auto simp: qt_finalize_def owned_def)
qed

lemma qt_finalize_keeps_zero:
  assumes "w ! (V * c + k) = 0" "k < V" "\<not> owned m c"
  shows "qt_finalize V m i w ! (V * c + k) = 0"
proof -
  have a: "fold (\<lambda>k w. w[V * i + k := 0]) [0..<V] w ! (V * c + k) = 0"
    by (rule fold_inv [where P = "\<lambda>u. u ! (V * c + k) = 0"])
       (use assms in \<open>simp_all add: nth_upd\<close>)
  have b: "fold (\<lambda>k w. w[V * i + k := w ! (V * i + k) * x]) [0..<V] w ! (V * c + k) = 0" for x
    by (rule fold_inv [where P = "\<lambda>u. u ! (V * c + k) = 0"])
       (use assms in \<open>auto simp: nth_upd\<close>)
  show ?thesis
    using a b [of "1 / cellsAreas m ! i"] by (simp add: qt_finalize_def Let_def)
qed

lemma calc_time_derivatives_length [simp]:
  "length (calc_time_derivatives V fl m q gx gy lm qt) = length qt"
proof -
  have e: "length (qt_edge V fl m q gx gy lm e w) = length w" for e w
    unfolding qt_edge_def Let_def by (rule fold_cell_length) simp
  show ?thesis
    unfolding calc_time_derivatives_def Let_def
    by (simp add: fold_cell_length e)
qed

lemma calc_time_derivatives_ghost:
  assumes "c < length (cellsAreas m)" "\<not> owned m c" "k < V" "V * c + k < length qt"
  shows "calc_time_derivatives V fl m q gx gy lm qt ! (V * c + k) = 0"
  unfolding calc_time_derivatives_def Let_def
proof (rule fold_establish [where x = c and I = "\<lambda>u. length u = length qt"
      and Z = "\<lambda>u. u ! (V * c + k) = 0"])
  show "c \<in> set [0..<length (cellsAreas m)]" using assms by simp
  show "length (fold (qt_edge V fl m q gx gy lm) [0..<edgesNodes_cols m]
          (for_assign (length qt) (\<lambda>_. 0) qt)) = length qt"
  proof -
    have e: "length (qt_edge V fl m q gx gy lm e w) = length w" for e w
      unfolding qt_edge_def Let_def by (rule fold_cell_length) simp
    show ?thesis by (simp add: fold_cell_length e)
  qed
qed (use assms in \<open>simp_all add: qt_finalize_zero qt_finalize_keeps_zero\<close>)


lemma halo_mesh:
  assumes "m = m0\<lparr>comms := c0\<rparr>"
  shows "\<exists>cs. snd (halo V ps rx (v, m)) = m0\<lparr>comms := cs\<rparr>"
proof (cases "ps > 1")
  case True
  have "snd (halo V ps rx (v, m)) =
      m0\<lparr>comms := map (\<lambda>(k, c). c\<lparr>rec_q := rx ! k\<rparr>) (enumerate 0 (map (pack_comm V v) (comms m)))\<rparr>"
    using True assms by (simp add: halo_def update_comms_def Let_def)
  then show ?thesis by (rule exI)
next
  case False
  then have "snd (halo V ps rx (v, m)) = m0\<lparr>comms := c0\<rparr>"
    using assms by (simp add: halo_def)
  then show ?thesis by (rule exI)
qed

lemma mesh_self: "m = m\<lparr>comms := comms m\<rparr>"
  by simp

lemma complete_calc_qt_mesh:
  "\<exists>cs gx' gy' lm'. s_qt (complete_calc_qt P ps rx q s) =
      calc_time_derivatives (vars P) (calc_flux P) ((s_mesh s)\<lparr>comms := cs\<rparr>) q gx' gy' lm' (s_qt s)"
proof -
  define s1 where "s1 = (if do_calc_gradients P then
                  (let g = calc_gradients (vars P) (s_mesh s) q (s_gx s, s_gy s);
                       hx = halo (vars P) ps (rx_gx rx) (fst g, s_mesh s);
                       hy = halo (vars P) ps (rx_gy rx) (snd g, snd hx)
                   in s\<lparr>s_gx := fst hx, s_gy := fst hy, s_mesh := snd hy\<rparr>)
                else s)"
  define s2 where "s2 = (if do_calc_limiters P then
                  (let l = calc_limiters (vars P) (limiter_func P) (s_mesh s1) q (s_gx s1) (s_gy s1)
                             (s_limiters s1, s_qmin s1, s_qmax s1);
                       hl = halo (vars P) ps (rx_limiters rx) (fst l, s_mesh s1)
                   in s1\<lparr>s_limiters := fst hl, s_qmin := fst (snd l), s_qmax := snd (snd l),
                          s_mesh := snd hl\<rparr>)
                else s1)"
  have m1: "\<exists>cs. s_mesh s1 = (s_mesh s)\<lparr>comms := cs\<rparr>"
  proof (cases "do_calc_gradients P")
    case True
    define g where "g = calc_gradients (vars P) (s_mesh s) q (s_gx s, s_gy s)"
    obtain c1 where c1: "snd (halo (vars P) ps (rx_gx rx) (fst g, s_mesh s)) = (s_mesh s)\<lparr>comms := c1\<rparr>"
      using halo_mesh [OF mesh_self] by blast
    have "\<exists>cs. snd (halo (vars P) ps (rx_gy rx) (snd g, (s_mesh s)\<lparr>comms := c1\<rparr>))
          = (s_mesh s)\<lparr>comms := cs\<rparr>"
      by (rule halo_mesh) (rule refl)
    moreover have "s_mesh s1 = snd (halo (vars P) ps (rx_gy rx) (snd g, (s_mesh s)\<lparr>comms := c1\<rparr>))"
      using True c1 by (simp add: s1_def Let_def g_def)
    ultimately show ?thesis by simp
  next
    case False
    then have "s_mesh s1 = (s_mesh s)\<lparr>comms := comms (s_mesh s)\<rparr>"
      by (simp add: s1_def)
    then show ?thesis by (rule exI)
  qed
  have q1: "s_qt s1 = s_qt s" by (simp add: s1_def Let_def)
  have m2: "\<exists>cs. s_mesh s2 = (s_mesh s)\<lparr>comms := cs\<rparr>"
  proof (cases "do_calc_limiters P")
    case True
    obtain c0 where c0: "s_mesh s1 = (s_mesh s)\<lparr>comms := c0\<rparr>" using m1 by blast
    define l where "l = calc_limiters (vars P) (limiter_func P) (s_mesh s1) q (s_gx s1) (s_gy s1)
                             (s_limiters s1, s_qmin s1, s_qmax s1)"
    have "\<exists>cs. snd (halo (vars P) ps (rx_limiters rx) (fst l, s_mesh s1)) = (s_mesh s)\<lparr>comms := cs\<rparr>"
      by (rule halo_mesh) (rule c0)
    moreover have "s_mesh s2 = snd (halo (vars P) ps (rx_limiters rx) (fst l, s_mesh s1))"
      using True by (simp add: s2_def Let_def l_def)
    ultimately show ?thesis by simp
  next
    case False
    then show ?thesis using m1 by (simp add: s2_def)
  qed
  have q2: "s_qt s2 = s_qt s" using q1 by (simp add: s2_def Let_def)
  obtain cs where cs: "s_mesh s2 = (s_mesh s)\<lparr>comms := cs\<rparr>"
    using m2 by blast
  have "complete_calc_qt P ps rx q s =
      s2\<lparr>s_qt := calc_time_derivatives (vars P) (calc_flux P) (s_mesh s2) q (s_gx s2) (s_gy s2)
                  (s_limiters s2) (s_qt s2)\<rparr>"
    unfolding complete_calc_qt_def s2_def s1_def Let_def by (rule refl)
  then have "s_qt (complete_calc_qt P ps rx q s) =
      calc_time_derivatives (vars P) (calc_flux P) (s_mesh s2) q (s_gx s2) (s_gy s2) (s_limiters s2) (s_qt s2)"
    by simp
  then have "s_qt (complete_calc_qt P ps rx q s) =
      calc_time_derivatives (vars P) (calc_flux P) ((s_mesh s)\<lparr>comms := cs\<rparr>) q
        (s_gx s2) (s_gy s2) (s_limiters s2) (s_qt s)"
    by (simp only: cs q2)
  then show ?thesis by (intro exI)
qed

subsection \<open>Gradients\<close>

lemma fold_pair_split:
  "fold (\<lambda>k (a, b). (fa k a, fb k b)) ks g = (fold fa ks (fst g), fold fb ks (snd g))"
  by (induction ks arbitrary: g) (simp_all add: case_prod_beta)

lemma zero_cell_length [simp]: "length (fold (\<lambda>k w. w[V * i + k := z k w]) ks w) = length w"
  by (rule fold_cell_length) simp

lemma zero_cell_nth:
  assumes "k < V" "V * c + k < length w"
  shows "fold (\<lambda>k w. w[V * c + k := (0::real)]) [0..<V] w ! (V * c + k) = 0"
proof (rule fold_establish [where x = k and I = "\<lambda>u. length u = length w"
      and Z = "\<lambda>u. u ! (V * c + k) = 0"])
  show "k \<in> set [0..<V]" using assms by simp
qed (use assms in \<open>simp_all add: nth_upd\<close>)

lemma zero_cell_keep:
  assumes "w ! idx = 0"
  shows "fold (\<lambda>k w. w[V * i + k := (0::real)]) ks w ! idx = 0"
  by (rule fold_inv [where P = "\<lambda>u. u ! idx = 0"]) (use assms in \<open>simp_all add: nth_upd\<close>)

lemma grad_zero_split:
  "grad_zero V i g =
     (fold (\<lambda>k w. w[V * i + k := 0]) [0..<V] (fst g), fold (\<lambda>k w. w[V * i + k := 0]) [0..<V] (snd g))"
  unfolding grad_zero_def by (rule fold_pair_split)

lemma grad_normalize_length:
  "length (fst (grad_normalize V m i g)) = length (fst g) \<and>
   length (snd (grad_normalize V m i g)) = length (snd g)"
  unfolding grad_normalize_def Let_def
  by (rule fold_inv [where P = "\<lambda>u. length (fst u) = length (fst g) \<and> length (snd u) = length (snd g)"])
     (simp_all add: case_prod_beta)

lemma grad_edge_length:
  "length (fst (grad_edge V m q e g)) = length (fst g) \<and>
   length (snd (grad_edge V m q e g)) = length (snd g)"
proof -
  have "length (fst (fold (\<lambda>k (gx, gy).
                  let f = (q ! (V * i + k) + q ! (V * j + k)) * 0.5 * le;
                      gx1 = gx[V * i + k := gx ! (V * i + k) + f * nx];
                      gy1 = gy[V * i + k := gy ! (V * i + k) + f * ny];
                      gx2 = gx1[V * j + k := gx1 ! (V * j + k) - f * nx];
                      gy2 = gy1[V * j + k := gy1 ! (V * j + k) - f * ny]
                  in (gx2, gy2))
                [0..<V] g)) = length (fst g) \<and>
        length (snd (fold (\<lambda>k (gx, gy).
                  let f = (q ! (V * i + k) + q ! (V * j + k)) * 0.5 * le;
                      gx1 = gx[V * i + k := gx ! (V * i + k) + f * nx];
                      gy1 = gy[V * i + k := gy ! (V * i + k) + f * ny];
                      gx2 = gx1[V * j + k := gx1 ! (V * j + k) - f * nx];
                      gy2 = gy1[V * j + k := gy1 ! (V * j + k) - f * ny]
                  in (gx2, gy2))
                [0..<V] g)) = length (snd g)" for i j le nx ny
    by (rule fold_inv [where P = "\<lambda>u. length (fst u) = length (fst g) \<and> length (snd u) = length (snd g)"])
       (simp_all add: case_prod_beta Let_def)
  then show ?thesis
    unfolding grad_edge_def Let_def by simp
qed

lemma fold_pair_length:
  assumes "\<And>x u. length (fst (f x u)) = length (fst u) \<and> length (snd (f x u)) = length (snd u)"
  shows "length (fst (fold f xs g)) = length (fst g) \<and> length (snd (fold f xs g)) = length (snd g)"
  by (rule fold_inv [where P = "\<lambda>u. length (fst u) = length (fst g) \<and> length (snd u) = length (snd g)"])
     (simp_all add: assms)

subsection \<open>Limiters\<close>

lemma limiter_cell_length [simp]:
  "length (limiter_cell V lf m q gx gy qmin qmax e i lims) = length lims"
  unfolding limiter_cell_def Let_def by (simp add: fold_cell_length)

lemma limiter_edge_length [simp]:
  "length (limiter_edge V lf m q gx gy qmin qmax e lims) = length lims"
  unfolding limiter_edge_def Let_def by simp

lemma limiter_cell_other:
  assumes "\<not> owned m c" "k < V"
  shows "limiter_cell V lf m q gx gy qmin qmax e i lims ! (V * c + k) = lims ! (V * c + k)"
proof (cases "owned m i")
  case True
  then have ne: "i \<noteq> c" using assms by auto
  have "fold (\<lambda>k' w. w[V * i + k' := z k' w]) [0..<V] lims ! (V * c + k) = lims ! (V * c + k)" for z
    by (rule fold_inv [where P = "\<lambda>u. u ! (V * c + k) = lims ! (V * c + k)"])
       (use assms ne in \<open>simp_all add: nth_upd cell_index_eq\<close>)
  then show ?thesis
    using True by (simp add: limiter_cell_def owned_def Let_def)
next
  case False
  then show ?thesis by (auto simp: limiter_cell_def owned_def)
qed

lemma limiter_edge_other:
  assumes "\<not> owned m c" "k < V"
  shows "limiter_edge V lf m q gx gy qmin qmax e lims ! (V * c + k) = lims ! (V * c + k)"
  unfolding limiter_edge_def Let_def using assms by (simp add: limiter_cell_other)

lemma calc_limiters_fst:
  "fst (calc_limiters V lf m q gx gy (lims, qmin, qmax)) =
     fold (limiter_edge V lf m q gx gy
             (fst (fold (minmax_edge V m q) [0..<length (edgesLengths m)]
                (for_assign (length q) (\<lambda>i. q ! i) qmin, for_assign (length q) (\<lambda>i. q ! i) qmax)))
             (snd (fold (minmax_edge V m q) [0..<length (edgesLengths m)]
                (for_assign (length q) (\<lambda>i. q ! i) qmin, for_assign (length q) (\<lambda>i. q ! i) qmax))))
          [0..<length (edgesLengths m)] (for_assign (length lims) (\<lambda>_. 1) lims)"
  by (simp add: calc_limiters_def Let_def)

subsection \<open>An upper bound of the limiter\<close>






subsection \<open>Rounding at concrete numbers\<close>

text \<open>
  \<open>b64\<close> keeps a number of 53 bits, rounds \<open>1/3\<close> to the double \<^verbatim>\<open>0x1.5555555555555p-2\<close>, and
  sends a tie to the even significand, as binary64 does.
\<close>

lemma b64_examples:
  "b64 1 = 1"
  "b64 (1 / 3) = 6004799503160661 / 2 ^ 54"
  "b64 (1 / 10 ^ 15) = 2535301200456459 / 2 ^ 101"
  "b64 (2 ^ 53 + 1) = 2 ^ 53"
  "b64 (2 ^ 53 + 3) = 2 ^ 53 + 4"
  "b64 (- (2 ^ 53 + 3)) = - (2 ^ 53 + 4)"
  by (simp_all add: b64.simps round_even_def)

subsection \<open>A run of the limiter in binary64\<close>

text \<open>
  One owned cell of \<open>ex_mesh_halo\<close> with \<open>q = 2718162823545749 / 2^50\<close> beside a cell with
  \<open>q = 1\<close>, and the gradient \<open>3082413381624729 / 2^51\<close>: \<open>delta_max\<close> is 0, \<open>delta_min\<close> is
  \<open>- 1592262916703125 / 2^50\<close> and \<open>dqg\<close> is \<open>3082413381624729 / 2^52\<close>. The square of the
  difference rounds to \<open>9007199238581417 / 2^52\<close>, just below 2, so the cubic fade is taken
  with \<open>y = 4503599611210921 / 2^52\<close>, just below 1.
\<close>

lemma fade_dMaxMin2:
  "b64 (b64 (0 - - (1592262916703125 / 2 ^ 50)) * b64 (0 - - (1592262916703125 / 2 ^ 50))) =
     9007199238581417 / 2 ^ 52"
  by (simp add: b64.simps round_even_def)

lemma fade_y: "b64 (b64 ((9007199238581417 / 2 ^ 52) / 1) - 1) = 4503599611210921 / 2 ^ 52"
  by (simp add: b64.simps round_even_def)

lemma fade_cube:
  "b64 (b64 (b64 (2 * (4503599611210921 / 2 ^ 52)) * (4503599611210921 / 2 ^ 52)) *
        (4503599611210921 / 2 ^ 52)) = 4503599578891771 / 2 ^ 51"
  by (simp add: b64.simps round_even_def)

lemma fade_square:
  "b64 (b64 (3 * (4503599611210921 / 2 ^ 52)) * (4503599611210921 / 2 ^ 52)) =
     1688849848144255 / 2 ^ 49"
  by (simp add: b64.simps round_even_def)

lemma fade_sig:
  "b64 (b64 (4503599578891771 / 2 ^ 51 - 1688849848144255 / 2 ^ 49) + 1) = - (1 / 2 ^ 51)"
  by (simp add: b64.simps round_even_def)







subsection \<open>Boundary conditions\<close>

lemma write_cell_length [simp]: "length (write_cell V c b q) = length q"
  unfolding write_cell_def by (rule fold_cell_length) simp

lemma write_cell_other:
  assumes "c' \<noteq> c" "k < V"
  shows "write_cell V c b q ! (V * c' + k) = q ! (V * c' + k)"
  unfolding write_cell_def
  by (rule fold_inv [where P = "\<lambda>u. u ! (V * c' + k) = q ! (V * c' + k)"])
     (use assms in \<open>simp_all add: nth_upd cell_index_eq\<close>)

lemma write_cell_same:
  assumes "k < V" "V * c + k < length q"
  shows "write_cell V c b q ! (V * c + k) = b ! k"
  unfolding write_cell_def
proof (rule fold_establish [where x = k and I = "\<lambda>u. length u = length q"
      and Z = "\<lambda>u. u ! (V * c + k) = b ! k"])
  show "k \<in> set [0..<V]" using assms by simp
qed (use assms in \<open>auto simp: nth_upd\<close>)

lemma bound_edge_length [simp]: "length (bound_edge V m i q) = length q"
  by (simp add: bound_edge_def Let_def)

lemma update_bounds_length [simp]: "length (update_bounds V m q) = length q"
  unfolding update_bounds_def by (rule fold_cell_length) simp

lemma cell_slice_cong:
  assumes "same_on_cells V C u v" "c \<in> C"
  shows "cell_slice V u c = cell_slice V v c"
  using assms by (simp add: cell_slice_def same_on_cells_def)

lemma bound_fold_frame:
  assumes "c \<notin> bnd_dst m ` set bs" "k < V"
  shows "fold (bound_edge V m) bs u ! (V * c + k) = u ! (V * c + k)"
proof (rule fold_inv [where P = "\<lambda>w. w ! (V * c + k) = u ! (V * c + k)"])
  fix i w
  assume "i \<in> set bs" and w: "w ! (V * c + k) = u ! (V * c + k)"
  then have "c \<noteq> bnd_dst m i" using assms(1) by auto
  then show "bound_edge V m i w ! (V * c + k) = u ! (V * c + k)"
    using w assms(2) by (simp add: bound_edge_def Let_def write_cell_other)
qed simp

lemma bound_fold_agree:
  assumes "length u = length v" "same_on_cells V C u v"
    and "\<forall>i\<in>set bs. bnd_src m i \<in> C" and "\<forall>i\<in>set bs. V * bnd_dst m i + V \<le> length u"
  shows "same_on_cells V (C \<union> bnd_dst m ` set bs) (fold (bound_edge V m) bs u) (fold (bound_edge V m) bs v)"
  using assms
proof (induction bs arbitrary: u v C)
  case Nil
  then show ?case by simp
next
  case (Cons i bs)
  define b where "b = (boundaryFuncs m ! i) (cell_slice V u (bnd_src m i))
                        (edgesNormalsX m ! (boundaryEdges m ! i), edgesNormalsY m ! (boundaryEdges m ! i))"
  have sl: "cell_slice V u (bnd_src m i) = cell_slice V v (bnd_src m i)"
    using Cons.prems by (intro cell_slice_cong [where C = C]) simp_all
  have u': "bound_edge V m i u = write_cell V (bnd_dst m i) b u"
    by (simp add: bound_edge_def Let_def b_def)
  have v': "bound_edge V m i v = write_cell V (bnd_dst m i) b v"
    by (simp add: bound_edge_def Let_def b_def sl)
  have inr: "V * bnd_dst m i + V \<le> length u" using Cons.prems by simp
  have step: "same_on_cells V (C \<union> {bnd_dst m i}) (bound_edge V m i u) (bound_edge V m i v)"
    unfolding same_on_cells_def
  proof (intro ballI allI impI)
    fix c k
    assume c: "c \<in> C \<union> {bnd_dst m i}" and k: "k < V"
    show "bound_edge V m i u ! (V * c + k) = bound_edge V m i v ! (V * c + k)"
    proof (cases "c = bnd_dst m i")
      case True
      have "V * bnd_dst m i + k < length u" "V * bnd_dst m i + k < length v"
        using inr k Cons.prems(1) by simp_all
      then show ?thesis
        using True k by (simp add: u' v' write_cell_same)
    next
      case False
      then have "c \<in> C" using c by simp
      then have "u ! (V * c + k) = v ! (V * c + k)"
        using Cons.prems(2) k by (simp add: same_on_cells_def)
      then show ?thesis
        using False k by (simp add: u' v' write_cell_other)
    qed
  qed
  have "same_on_cells V ((C \<union> {bnd_dst m i}) \<union> bnd_dst m ` set bs)
          (fold (bound_edge V m) bs (bound_edge V m i u)) (fold (bound_edge V m) bs (bound_edge V m i v))"
  proof (rule Cons.IH [OF _ step])
    show "length (bound_edge V m i u) = length (bound_edge V m i v)"
      using Cons.prems(1) by simp
    show "\<forall>j\<in>set bs. bnd_src m j \<in> C \<union> {bnd_dst m i}"
      using Cons.prems(3) by simp
    show "\<forall>j\<in>set bs. V * bnd_dst m j + V \<le> length (bound_edge V m i u)"
      using Cons.prems(4) by simp
  qed
  moreover have "(C \<union> {bnd_dst m i}) \<union> bnd_dst m ` set bs = C \<union> bnd_dst m ` set (i # bs)"
    by auto
  ultimately show ?case by simp
qed

subsection \<open>Residuals\<close>

lemma fold_upt_Suc: "fold f [0..<Suc n] s = f n (fold f [0..<n] s)"
  by simp

lemma fold_map_length [simp]: "length (fold (\<lambda>j w. w[j := h j w]) js w) = length w"
  by (rule fold_cell_length) simp

lemma fold_map_nth:
  assumes "k < length w"
  shows "fold (\<lambda>j w. w[j := h j (w ! j)]) [0..<n] w ! k = (if k < n then h k (w ! k) else w ! k)"
proof (induction n)
  case 0
  then show ?case by simp
next
  case (Suc n)
  show ?case
    using Suc assms by (cases "k = n") (simp_all add: nth_upd)
qed

lemma residual_partial_length [simp]: "length (residual_partial V m qt R) = length R"
  unfolding residual_partial_def Let_def
  by (rule fold_inv [where P = "\<lambda>u. length u = length R"]) simp_all

lemma residual_partial_nth:
  assumes "length R = V" "k < V"
  shows "residual_partial V m qt R ! k = (\<Sum>c\<leftarrow>[0..<nRealCells m]. cell_term V m qt k c)"
proof -
  define step where "step = (\<lambda>i R1.
                if \<not> cellsIsGhost m ! i then
                  fold (\<lambda>j w. w[j := w ! j + qt ! (V * i + j) * qt ! (V * i + j) * cellsAreas m ! i])
                       [0..<V] R1
                else R1)"
  have len: "length (fold step is w) = length w" for "is" w
    by (rule fold_inv [where P = "\<lambda>u. length u = length w"]) (simp_all add: step_def)
  have st: "step i w ! k = w ! k + cell_term V m qt k i" if "length w = V" for i w
    using that assms(2)
      fold_map_nth [of k w "\<lambda>j x. x + qt ! (V * i + j) * qt ! (V * i + j) * cellsAreas m ! i" V]
    by (simp add: step_def cell_term_def)
  have "fold step [0..<n] (for_assign V (\<lambda>_. 0) R) ! k = (\<Sum>c\<leftarrow>[0..<n]. cell_term V m qt k c)" for n
  proof (induction n)
    case 0
    then show ?case using assms by (simp add: nth_for_assign)
  next
    case (Suc n)
    have "length (fold step [0..<n] (for_assign V (\<lambda>_. 0) R)) = V"
      using assms(1) by (simp add: len)
    then show ?case using Suc by (simp add: st)
  qed
  then show ?thesis
    by (simp add: residual_partial_def Let_def step_def)
qed

lemma gather_nth:
  assumes "length R1 = V" "k < V"
  shows "fold (\<lambda>R_other R'. fold (\<lambda>j w. w[j := w ! j + R_other ! j]) [0..<V] R') inbox R1 ! k
         = R1 ! k + (\<Sum>x\<leftarrow>inbox. x ! k)"
  using assms
proof (induction inbox arbitrary: R1)
  case Nil
  then show ?case by simp
next
  case (Cons a inbox)
  have "fold (\<lambda>j w. w[j := w ! j + a ! j]) [0..<V] R1 ! k = R1 ! k + a ! k"
    using Cons.prems fold_map_nth [of k R1 "\<lambda>j x. x + a ! j" V] by simp
  moreover have "length (fold (\<lambda>j w. w[j := w ! j + a ! j]) [0..<V] R1) = V"
    using Cons.prems by simp
  ultimately show ?case
    using Cons.IH [of "fold (\<lambda>j w. w[j := w ! j + a ! j]) [0..<V] R1"] Cons.prems(2)
    by (simp add: add.assoc)
qed

lemma gather_length [simp]:
  "length (fold (\<lambda>R_other R'. fold (\<lambda>j w. w[j := w ! j + R_other ! j]) [0..<V] R') inbox R1) = length R1"
  by (rule fold_inv [where P = "\<lambda>u. length u = length R1"]) simp_all

lemma calc_residuals_root:
  assumes "length R = V" "k < V"
  shows "calc_residuals V 0 inbox fr m qt R ! k =
           sqrt ((\<Sum>c\<leftarrow>[0..<nRealCells m]. cell_term V m qt k c) + (\<Sum>x\<leftarrow>inbox. x ! k))"
proof -
  define R2 where "R2 = fold (\<lambda>R_other R'. fold (\<lambda>j w. w[j := w ! j + R_other ! j]) [0..<V] R')
                       inbox (residual_partial V m qt R)"
  have l2: "length R2 = V" using assms by (simp add: R2_def)
  have "R2 ! k = (\<Sum>c\<leftarrow>[0..<nRealCells m]. cell_term V m qt k c) + (\<Sum>x\<leftarrow>inbox. x ! k)"
    unfolding R2_def using assms by (simp add: gather_nth residual_partial_nth)
  moreover have "calc_residuals V 0 inbox fr m qt R = fold (\<lambda>i w. w[i := sqrt (w ! i)]) [0..<V] R2"
    by (simp add: calc_residuals_def Let_def R2_def)
  ultimately show ?thesis
    using fold_map_nth [of k R2 "\<lambda>j x. sqrt x" V] l2 assms(2) by simp
qed

lemma calc_residuals_other:
  assumes "length R = V" "k < V" "rank \<noteq> 0"
  shows "calc_residuals V rank inbox fr m qt R ! k = fr ! k"
  using assms by (simp add: calc_residuals_def Let_def nth_for_assign)

subsection \<open>Halo exchange\<close>

lemma enumerate_map: "enumerate n (map f xs) = map (\<lambda>(k, x). (k, f x)) (enumerate n xs)"
  by (induction xs arbitrary: n) simp_all

lemma map_snd_enumerate_fun: "map (\<lambda>x. g (snd x)) (enumerate n xs) = map g xs"
  by (induction xs arbitrary: n) simp_all

lemma out_rank_pack [simp]: "out_rank (pack_comm V q c) = out_rank c"
  by (simp add: pack_comm_def)

subsection \<open>The loop of the driver\<close>

lemma std_max_max: "std_max a b = max a b"
  by (simp add: std_max_def max_def)

lemma Rmax_fold:
  "fold (\<lambda>i Rmax. std_max (R ! i) Rmax) [0..<V] 0 = Max (insert 0 ((\<lambda>k. R ! k) ` {..<V}))"
proof (induction V)
  case 0
  then show ?case by simp
next
  case (Suc V)
  have "insert 0 ((\<lambda>k. R ! k) ` {..<Suc V}) = insert (R ! V) (insert 0 ((\<lambda>k. R ! k) ` {..<V}))"
    by (auto simp: lessThan_Suc)
  then have "Max (insert 0 ((\<lambda>k. R ! k) ` {..<Suc V})) = max (R ! V) (Max (insert 0 ((\<lambda>k. R ! k) ` {..<V})))"
    by simp
  then show ?case using Suc by (simp add: std_max_max)
qed

lemma Rmax_nonneg:
  assumes "0 < V" "\<forall>k<V. 0 \<le> R ! k"
  shows "Max (insert (0::real) ((\<lambda>k. R ! k) ` {..<V})) = Max ((\<lambda>k. R ! k) ` {..<V})"
proof -
  have ne: "(\<lambda>k. R ! k) ` {..<V} \<noteq> {}" using assms(1) by auto
  have "0 \<le> R ! 0" "R ! 0 \<in> (\<lambda>k. R ! k) ` {..<V}" using assms by auto
  then have "0 \<le> Max ((\<lambda>k. R ! k) ` {..<V})"
    by (meson Max_ge finite_imageI finite_lessThan order_trans)
  then show ?thesis using ne by (simp add: max_def)
qed

lemma run_loop_passes:
  "\<exists>n. run_loop P opt rank pool_size env st = run_passes P opt rank pool_size env n st \<and>
       loop_stops (vars P) opt (run_passes P opt rank pool_size env n st) \<and>
       (\<forall>i<n. \<not> loop_stops (vars P) opt (run_passes P opt rank pool_size env i st))"
proof (induction P opt rank pool_size env st rule: run_loop.induct)
  case (1 P opt rank pool_size env st)
  show ?case
  proof (cases "loop_stops (vars P) opt st")
    case True
    then have "run_loop P opt rank pool_size env st = run_passes P opt rank pool_size env 0 st"
      by (subst run_loop.simps) simp
    then show ?thesis using True by (intro exI [of _ 0]) simp
  next
    case False
    define st' where "st' = run_body P opt rank pool_size (env (r_step st)) st"
    obtain n where n: "run_loop P opt rank pool_size env st' = run_passes P opt rank pool_size env n st'"
      "loop_stops (vars P) opt (run_passes P opt rank pool_size env n st')"
      "\<forall>i<n. \<not> loop_stops (vars P) opt (run_passes P opt rank pool_size env i st')"
      using "1.IH" [OF False] unfolding st'_def by blast
    have a: "run_loop P opt rank pool_size env st = run_passes P opt rank pool_size env (Suc n) st"
      using False n(1) by (subst run_loop.simps) (simp add: st'_def)
    have b: "loop_stops (vars P) opt (run_passes P opt rank pool_size env (Suc n) st)"
      using n(2) by (simp add: st'_def)
    have c: "\<not> loop_stops (vars P) opt (run_passes P opt rank pool_size env i st)" if "i < Suc n" for i
    proof (cases i)
      case 0
      then show ?thesis using False by simp
    next
      case (Suc j)
      then show ?thesis using n(3) that by (simp add: st'_def)
    qed
    show ?thesis using a b c by blast
  qed
qed

subsection \<open>Conservation\<close>

lemma fold_cell_map_nth:
  assumes "k < V" "V * c + k < length w" "n \<le> V"
  shows "fold (\<lambda>k' u. u[V * i + k' := h k' (u ! (V * i + k'))]) [0..<n] w ! (V * c + k) =
           (if c = i \<and> k < n then h k (w ! (V * c + k)) else w ! (V * c + k))"
  using assms(3)
proof (induction n)
  case 0
  then show ?case by simp
next
  case (Suc n)
  then have n: "n < V" "n \<le> V" by simp_all
  have len: "length (fold (\<lambda>k' u. u[V * i + k' := h k' (u ! (V * i + k'))]) [0..<n] w) = length w"
    by (rule fold_cell_length) simp
  show ?case
  proof (cases "c = i \<and> k = n")
    case True
    then show ?thesis using Suc.IH [OF n(2)] assms len by (simp add: nth_upd)
  next
    case False
    then have "V * i + n \<noteq> V * c + k"
      using cell_index_eq [of n V k i c] n(1) assms(1) by auto
    then show ?thesis using Suc.IH [OF n(2)] False assms len by (auto simp: nth_upd)
  qed
qed

lemma qt_finalize_nth:
  assumes "k < V" "V * c + k < length w"
  shows "qt_finalize V m i w ! (V * c + k) =
           (if c = i then (if owned m i then w ! (V * c + k) * (1 / cellsAreas m ! i) else 0)
            else w ! (V * c + k))"
proof -
  have z: "fold (\<lambda>k' u. u[V * i + k' := 0]) [0..<V] w ! (V * c + k) =
             (if c = i then 0 else w ! (V * c + k))"
    using fold_cell_map_nth [OF assms, of V i "\<lambda>_ _. 0"] assms(1) by simp
  have n: "fold (\<lambda>k' u. u[V * i + k' := u ! (V * i + k') * x]) [0..<V] w ! (V * c + k) =
             (if c = i then w ! (V * c + k) * x else w ! (V * c + k))" for x
    using fold_cell_map_nth [OF assms, of V i "\<lambda>_ y. y * x"] assms(1) by simp
  show ?thesis
  proof (cases "owned m i")
    case True
    then show ?thesis
      using n [of "1 / cellsAreas m ! i"] by (simp add: qt_finalize_def owned_def Let_def)
  next
    case False
    then show ?thesis
      using z by (auto simp: qt_finalize_def owned_def)
  qed
qed

lemma finalize_fold_nth:
  assumes "k < V" "V * c + k < length w"
  shows "fold (qt_finalize V m) [0..<n] w ! (V * c + k) =
           (if c < n then (if owned m c then w ! (V * c + k) * (1 / cellsAreas m ! c) else 0)
            else w ! (V * c + k))"
proof (induction n)
  case 0
  then show ?case by simp
next
  case (Suc n)
  have len: "length (fold (qt_finalize V m) [0..<n] w) = length w"
    by (rule fold_cell_length) simp
  show ?case
    using Suc assms len by (cases "c = n") (simp_all add: qt_finalize_nth)
qed


lemma cell_index_less:
  assumes "c < N" "k < V"
  shows "V * c + k < V * (N::nat)"
proof -
  have "V * c + k < V * c + V" using assms(2) by simp
  also have "V * c + V = V * Suc c" by simp
  also have "V * Suc c \<le> V * N" using assms(1) by (intro mult_le_mono2) simp
  finally show ?thesis .
qed

lemma edge_step_nth:
  assumes "k < V" "k' < V" "V * i + k' < length w" "V * j + k' < length w"
  shows "(let w1 = w[V * i + k' := w ! (V * i + k') - (a::real)]
          in w1[V * j + k' := w1 ! (V * j + k') + a]) ! (V * c + k) =
         w ! (V * c + k) +
           (if k = k' then (if c = j then a else 0) - (if c = i then a else 0) else 0)"
  using assms by (auto simp: Let_def nth_upd cell_index_eq)

lemma sum_delta_pair:
  assumes "i < (N::nat)" "j < N"
  shows "(\<Sum>c<N. (if c = j then a else 0) - (if c = i then (a::real) else 0)) = 0"
proof -
  have "(\<Sum>c<N. (if c = j then a else 0) - (if c = i then a else 0)) =
        (\<Sum>c<N. if c = j then a else 0) - (\<Sum>c<N. if c = i then a else 0)"
    by (rule sum_subtractf)
  also have "\<dots> = a - a"
    using assms by (simp add: sum.delta)
  finally show ?thesis by simp
qed

lemma edge_step_balanced:
  assumes "balanced V m w" "k' < V" "owned m i" "owned m j" "nRealCells m \<le> length (cellsAreas m)"
  shows "balanced V m (let w1 = w[V * i + k' := w ! (V * i + k') - a]
                        in w1[V * j + k' := w1 ! (V * j + k') + a])"
proof -
  let ?N = "length (cellsAreas m)"
  let ?w' = "let w1 = w[V * i + k' := w ! (V * i + k') - a]
             in w1[V * j + k' := w1 ! (V * j + k') + a]"
  have iN: "i < ?N" and jN: "j < ?N" using assms(3,4,5) by (auto simp: owned_def)
  have len: "length w = V * ?N" using assms(1) by (simp add: balanced_def)
  have ri: "V * i + k' < length w" and rj: "V * j + k' < length w"
    using cell_index_less [OF iN assms(2)] cell_index_less [OF jN assms(2)] len by simp_all
  have pt: "?w' ! (V * c + k) = w ! (V * c + k) +
           (if k = k' then (if c = j then a else 0) - (if c = i then a else 0) else 0)"
    if "k < V" for c k
    by (rule edge_step_nth [OF that assms(2) ri rj])
  have l': "length ?w' = V * ?N" using len by (simp add: Let_def)
  have s': "(\<Sum>c<?N. ?w' ! (V * c + k)) = 0" if k: "k < V" for k
  proof -
    have "(\<Sum>c<?N. ?w' ! (V * c + k)) =
          (\<Sum>c<?N. w ! (V * c + k)) +
          (\<Sum>c<?N. if k = k' then (if c = j then a else 0) - (if c = i then a else 0) else 0)"
      by (simp only: pt [OF k] sum.distrib)
    moreover have "(\<Sum>c<?N. w ! (V * c + k)) = 0"
      using assms(1) k by (simp add: balanced_def)
    moreover have "(\<Sum>c<?N. if k = k' then (if c = j then a else 0) - (if c = i then a else 0) else 0) = 0"
      using sum_delta_pair [OF iN jN, of a] by (cases "k = k'") simp_all
    ultimately show ?thesis by simp
  qed
  have z': "?w' ! (V * c + k) = 0" if "c < ?N" "\<not> owned m c" "k < V" for c k
  proof -
    have "c \<noteq> i" "c \<noteq> j" using that(2) assms(3,4) by auto
    moreover have "w ! (V * c + k) = 0" using assms(1) that by (simp add: balanced_def)
    ultimately show ?thesis using pt [OF that(3), of c] by simp
  qed
  show ?thesis
    unfolding balanced_def using l' s' z' by blast
qed

lemma qt_edge_balanced:
  assumes "balanced V m w" "closed_domain m" "e < edgesNodes_cols m"
    "nRealCells m \<le> length (cellsAreas m)"
  shows "balanced V m (qt_edge V fl m q gx gy lm e w)"
  unfolding qt_edge_def Let_def
proof (rule fold_inv [where P = "balanced V m"])
  show "balanced V m w" by (rule assms(1))
next
  fix k' u
  assume k': "k' \<in> set [0..<V]" and u: "balanced V m u"
  have o: "owned m (fst (edgesCells m ! e))" "owned m (snd (edgesCells m ! e))"
    using assms(2,3) by (simp_all add: closed_domain_def)
  have "k' < V" using k' by simp
  from edge_step_balanced [OF u this o assms(4),
      of "flux_edge V fl m q gx gy lm e ! k' * edgesLengths m ! e"]
  show "balanced V m
          (u[V * fst (edgesCells m ! e) + k' :=
               u ! (V * fst (edgesCells m ! e) + k') -
               flux_edge V fl m q gx gy lm e ! k' * edgesLengths m ! e,
             V * snd (edgesCells m ! e) + k' :=
               u[V * fst (edgesCells m ! e) + k' :=
                   u ! (V * fst (edgesCells m ! e) + k') -
                   flux_edge V fl m q gx gy lm e ! k' * edgesLengths m ! e] !
               (V * snd (edgesCells m ! e) + k') +
               flux_edge V fl m q gx gy lm e ! k' * edgesLengths m ! e])"
    by (simp add: Let_def)
qed

lemma accumulate_balanced:
  assumes "closed_domain m" "nRealCells m \<le> length (cellsAreas m)"
    "length qt = V * length (cellsAreas m)"
  shows "balanced V m (fold (qt_edge V fl m q gx gy lm) [0..<edgesNodes_cols m]
                         (for_assign (length qt) (\<lambda>_. 0) qt))"
proof (rule fold_inv [where P = "balanced V m"])
  have "for_assign (length qt) (\<lambda>_. 0::real) qt ! (V * c + k) = 0"
    if "c < length (cellsAreas m)" "k < V" for c k
    using cell_index_less [OF that] assms(3) by (simp add: nth_for_assign)
  then show "balanced V m (for_assign (length qt) (\<lambda>_. 0) qt)"
    using assms(3) by (simp add: balanced_def)
next
  fix e u
  assume "e \<in> set [0..<edgesNodes_cols m]" "balanced V m u"
  then show "balanced V m (qt_edge V fl m q gx gy lm e u)"
    using assms by (intro qt_edge_balanced) simp_all
qed

lemma calc_time_derivatives_balance:
  assumes "closed_domain m" "nRealCells m \<le> length (cellsAreas m)"
    "length qt = V * length (cellsAreas m)" "\<forall>c<nRealCells m. 0 < cellsAreas m ! c" "k < V"
  shows "total_all V m k (calc_time_derivatives V fl m q gx gy lm qt) = 0 \<and>
         total_owned V m k (calc_time_derivatives V fl m q gx gy lm qt) = 0"
proof -
  let ?N = "length (cellsAreas m)"
  define acc where "acc = fold (qt_edge V fl m q gx gy lm) [0..<edgesNodes_cols m]
                         (for_assign (length qt) (\<lambda>_. 0) qt)"
  have b: "balanced V m acc"
    unfolding acc_def by (rule accumulate_balanced [OF assms(1,2,3)])
  have res: "calc_time_derivatives V fl m q gx gy lm qt = fold (qt_finalize V m) [0..<?N] acc"
    by (simp add: calc_time_derivatives_def Let_def acc_def)
  have pt: "cellsAreas m ! c * calc_time_derivatives V fl m q gx gy lm qt ! (V * c + k) =
              acc ! (V * c + k)" if c: "c < ?N" for c
  proof -
    have r: "V * c + k < length acc"
      using cell_index_less [OF c assms(5)] b by (simp add: balanced_def)
    show ?thesis
    proof (cases "owned m c")
      case True
      then have "cellsAreas m ! c \<noteq> 0" using assms(4) by (auto simp: owned_def)
      then show ?thesis
        using True c by (simp add: res finalize_fold_nth [OF assms(5) r])
    next
      case False
      then have "acc ! (V * c + k) = 0" using b c assms(5) by (simp add: balanced_def)
      then show ?thesis
        using False c by (simp add: res finalize_fold_nth [OF assms(5) r])
    qed
  qed
  have z: "calc_time_derivatives V fl m q gx gy lm qt ! (V * c + k) = 0"
    if "c < ?N" "\<not> owned m c" for c
  proof -
    have r: "V * c + k < length acc"
      using cell_index_less [OF that(1) assms(5)] b by (simp add: balanced_def)
    show ?thesis using that by (simp add: res finalize_fold_nth [OF assms(5) r])
  qed
  have "total_all V m k (calc_time_derivatives V fl m q gx gy lm qt) = (\<Sum>c<?N. acc ! (V * c + k))"
    unfolding total_all_def by (rule sum.cong) (simp_all add: pt)
  then have a: "total_all V m k (calc_time_derivatives V fl m q gx gy lm qt) = 0"
    using b assms(5) by (simp add: balanced_def)
  have "total_owned V m k (calc_time_derivatives V fl m q gx gy lm qt) =
        total_all V m k (calc_time_derivatives V fl m q gx gy lm qt)"
    unfolding total_owned_def total_all_def by (rule sum.cong) (auto simp: z)
  then show ?thesis using a by simp
qed


lemma update_cells_nth:
  assumes "i < length qk"
  shows "update_cells qk q qt dt a ! i = q ! i + qt ! i * dt ! i * a"
  using assms by (simp add: update_cells_def nth_for_assign)

lemma update_cells_length [simp]: "length (update_cells qk q qt dt a) = length qk"
  by (simp add: update_cells_def)

lemma weighted_linear:
  "(\<Sum>c<(N::nat). g c * (x c + y c * (s::real))) = (\<Sum>c<N. g c * x c) + s * (\<Sum>c<N. g c * y c)"
  by (simp add: algebra_simps sum.distrib sum_distrib_left)

lemma total_owned_weight:
  "total_owned V m k v =
     (\<Sum>c<length (cellsAreas m). (if owned m c then cellsAreas m ! c else 0) * v ! (V * c + k))"
  unfolding total_owned_def by (rule sum.cong) simp_all

lemma total_all_cong:
  assumes "\<forall>c<length (cellsAreas m). v ! (V * c + k) = v' ! (V * c + k)"
  shows "total_all V m k v = total_all V m k v'"
  unfolding total_all_def by (rule sum.cong) (use assms in simp_all)

lemma total_owned_cong:
  assumes "\<forall>c<length (cellsAreas m). owned m c \<longrightarrow> v ! (V * c + k) = v' ! (V * c + k)"
  shows "total_owned V m k v = total_owned V m k v'"
  unfolding total_owned_def by (rule sum.cong) (use assms in simp_all)

lemma update_cells_totals:
  assumes "length qk = V * length (cellsAreas m)" "k < V"
    and "\<forall>i<V * length (cellsAreas m). dt ! i = d"
    and "total_all V m k qt = 0" "total_owned V m k qt = 0"
  shows "total_all V m k (update_cells qk q qt dt a) = total_all V m k q \<and>
         total_owned V m k (update_cells qk q qt dt a) = total_owned V m k q"
proof -
  let ?N = "length (cellsAreas m)"
  have pt: "update_cells qk q qt dt a ! (V * c + k) = q ! (V * c + k) + qt ! (V * c + k) * (d * a)"
    if "c < ?N" for c
    using cell_index_less [OF that assms(2)] assms(1,3) by (simp add: update_cells_nth)
  have "total_all V m k (update_cells qk q qt dt a) =
        (\<Sum>c<?N. cellsAreas m ! c * (q ! (V * c + k) + qt ! (V * c + k) * (d * a)))"
    unfolding total_all_def by (rule sum.cong) (simp_all add: pt)
  also have "\<dots> = total_all V m k q + (d * a) * total_all V m k qt"
    unfolding total_all_def by (rule weighted_linear)
  finally have a: "total_all V m k (update_cells qk q qt dt a) = total_all V m k q"
    using assms(4) by simp
  have "total_owned V m k (update_cells qk q qt dt a) =
        (\<Sum>c<?N. (if owned m c then cellsAreas m ! c else 0) *
                   (q ! (V * c + k) + qt ! (V * c + k) * (d * a)))"
    unfolding total_owned_weight by (rule sum.cong) (simp_all add: pt)
  also have "\<dots> = total_owned V m k q + (d * a) * total_owned V m k qt"
    unfolding total_owned_weight by (rule weighted_linear)
  finally have "total_owned V m k (update_cells qk q qt dt a) = total_owned V m k q"
    using assms(5) by simp
  then show ?thesis using a by simp
qed

lemma same_geometry_fields:
  assumes "same_geometry m0 m"
  shows "cellsAreas m = cellsAreas m0" "nRealCells m = nRealCells m0"
    "owned m = owned m0" "closed_domain m = closed_domain m0"
    "total_all V m = total_all V m0" "total_owned V m = total_owned V m0"
proof -
  obtain cs where m: "m = m0\<lparr>comms := cs\<rparr>" using assms by (auto simp: same_geometry_def)
  show ca: "cellsAreas m = cellsAreas m0" and "nRealCells m = nRealCells m0" by (simp_all add: m)
  have ec: "edgesNodes_cols m = edgesNodes_cols m0" "edgesCells m = edgesCells m0"
    by (simp_all add: m)
  show o: "owned m = owned m0" by (rule ext) (simp add: m owned_def)
  show "closed_domain m = closed_domain m0" by (simp add: closed_domain_def o ec)
  show "total_all V m = total_all V m0" by (intro ext) (simp add: total_all_def ca)
  show "total_owned V m = total_owned V m0" by (intro ext) (simp add: total_owned_def o ca cong: if_cong)
qed

lemma unpack_comm_length [simp]: "length (unpack_comm V x v) = length v"
  unfolding unpack_comm_def
  by (rule fold_inv [where P = "\<lambda>u. length u = length v"])
     (simp_all add: case_prod_beta fold_cell_length)

lemma unpack_comm_frame:
  assumes "c \<notin> set (rec_indices x)" "k < V"
  shows "unpack_comm V x v ! (V * c + k) = v ! (V * c + k)"
  unfolding unpack_comm_def
proof (rule fold_inv [where P = "\<lambda>u. u ! (V * c + k) = v ! (V * c + k)"])
  fix p u
  assume p: "p \<in> set (enumerate 0 (rec_indices x))" and u: "u ! (V * c + k) = v ! (V * c + k)"
  have "fst p < length (rec_indices x)" "rec_indices x ! fst p = snd p"
    using p by (auto simp: in_set_enumerate_eq)
  then have "snd p \<in> set (rec_indices x)"
    using nth_mem [of "fst p" "rec_indices x"] by simp
  then have ne: "snd p \<noteq> c" using assms(1) by blast
  have "fold (\<lambda>j w. w[V * snd p + j := rec_q x ! (V * fst p + j)]) [0..<V] u ! (V * c + k)
          = v ! (V * c + k)"
    by (rule fold_inv [where P = "\<lambda>w. w ! (V * c + k) = v ! (V * c + k)"])
       (use u ne assms(2) in \<open>simp_all add: nth_upd cell_index_eq\<close>)
  then show "(case p of (iter, i) \<Rightarrow>
               fold (\<lambda>j w. w[V * i + j := rec_q x ! (V * iter + j)]) [0..<V]) u ! (V * c + k)
             = v ! (V * c + k)"
    by (simp add: case_prod_beta)
qed simp

lemma rec_indices_pack [simp]: "rec_indices (pack_comm V q c) = rec_indices c"
  by (simp add: pack_comm_def)

lemma update_comms_parts:
  "fst (update_comms V rx (v, m)) =
     fold (unpack_comm V)
       (map (\<lambda>(k, c). c\<lparr>rec_q := rx ! k\<rparr>) (enumerate 0 (map (pack_comm V v) (comms m)))) v"
  "fst (snd (update_comms V rx (v, m))) =
     m\<lparr>comms := map (\<lambda>(k, c). c\<lparr>rec_q := rx ! k\<rparr>) (enumerate 0 (map (pack_comm V v) (comms m)))\<rparr>"
  by (simp_all add: update_comms_def Let_def)

lemma received_rec_indices:
  assumes "x \<in> set (map (\<lambda>(k, c). c\<lparr>rec_q := rx ! k\<rparr>) (enumerate 0 (map (pack_comm V v) cs)))"
  shows "\<exists>c\<in>set cs. rec_indices x = rec_indices c"
proof -
  obtain p where p: "p \<in> set (enumerate 0 (map (pack_comm V v) cs))"
    and x: "x = (snd p)\<lparr>rec_q := rx ! fst p\<rparr>"
    using assms by (auto simp: case_prod_beta)
  have "fst p < length (map (pack_comm V v) cs)" "map (pack_comm V v) cs ! fst p = snd p"
    using p by (auto simp: in_set_enumerate_eq)
  then have "snd p \<in> set (map (pack_comm V v) cs)"
    using nth_mem [of "fst p" "map (pack_comm V v) cs"] by simp
  then obtain c where "c \<in> set cs" "snd p = pack_comm V v c" by auto
  then show ?thesis using x by auto
qed

lemma halo_frame:
  assumes "same_geometry m0 m"
  shows "length (fst (halo V ps rx (v, m))) = length v"
    and "same_geometry m0 (snd (halo V ps rx (v, m)))"
    and "owned m0 c \<Longrightarrow> k < V \<Longrightarrow> fst (halo V ps rx (v, m)) ! (V * c + k) = v ! (V * c + k)"
    and "ps \<le> 1 \<Longrightarrow> fst (halo V ps rx (v, m)) = v"
proof -
  obtain cs where m: "m = m0\<lparr>comms := cs\<rparr>" and ok: "rec_ok m0 cs"
    using assms by (auto simp: same_geometry_def)
  define cs2 where "cs2 = map (\<lambda>(k, c). c\<lparr>rec_q := rx ! k\<rparr>) (enumerate 0 (map (pack_comm V v) cs))"
  have ok2: "rec_ok m0 cs2"
    unfolding rec_ok_def
  proof (intro ballI)
    fix x i
    assume "x \<in> set cs2" "i \<in> set (rec_indices x)"
    then obtain c0 where "c0 \<in> set cs" "rec_indices x = rec_indices c0"
      using received_rec_indices [of x rx V v cs] by (auto simp: cs2_def)
    then show "\<not> owned m0 i" using ok \<open>i \<in> set (rec_indices x)\<close> by (auto simp: rec_ok_def)
  qed
  have h: "halo V ps rx (v, m) = (if ps > 1 then (fold (unpack_comm V) cs2 v, m0\<lparr>comms := cs2\<rparr>) else (v, m))"
    by (simp add: halo_def split_beta update_comms_parts cs2_def m)
  show "length (fst (halo V ps rx (v, m))) = length v"
    by (simp add: h fold_cell_length)
  show "same_geometry m0 (snd (halo V ps rx (v, m)))"
  proof (cases "ps > 1")
    case True
    then have "snd (halo V ps rx (v, m)) = m0\<lparr>comms := cs2\<rparr>" by (simp add: h)
    then show ?thesis unfolding same_geometry_def using ok2 by blast
  next
    case False
    then have "snd (halo V ps rx (v, m)) = m" by (simp add: h)
    then show ?thesis using assms by simp
  qed
  show "fst (halo V ps rx (v, m)) ! (V * c + k) = v ! (V * c + k)" if c: "owned m0 c" and k: "k < V"
  proof -
    have "fold (unpack_comm V) cs2 v ! (V * c + k) = v ! (V * c + k)"
    proof (rule fold_inv [where P = "\<lambda>u. u ! (V * c + k) = v ! (V * c + k)"])
      fix x u
      assume "x \<in> set cs2" "u ! (V * c + k) = v ! (V * c + k)"
      moreover have "c \<notin> set (rec_indices x)" if "x \<in> set cs2"
        using ok2 that c by (auto simp: rec_ok_def)
      ultimately show "unpack_comm V x u ! (V * c + k) = v ! (V * c + k)"
        using k by (simp add: unpack_comm_frame)
    qed simp
    then show ?thesis by (simp add: h)
  qed
  show "fst (halo V ps rx (v, m)) = v" if "ps \<le> 1"
    using that by (simp add: h)
qed


lemma complete_calc_qt_geom:
  assumes "same_geometry m0 (s_mesh s)"
  shows "\<exists>m' gx' gy' lm'. same_geometry m0 m' \<and>
           s_mesh (complete_calc_qt P ps rx q s) = m' \<and>
           s_qt (complete_calc_qt P ps rx q s) =
             calc_time_derivatives (vars P) (calc_flux P) m' q gx' gy' lm' (s_qt s)"
proof -
  define s1 where "s1 = (if do_calc_gradients P then
                  (let g = calc_gradients (vars P) (s_mesh s) q (s_gx s, s_gy s);
                       hx = halo (vars P) ps (rx_gx rx) (fst g, s_mesh s);
                       hy = halo (vars P) ps (rx_gy rx) (snd g, snd hx)
                   in s\<lparr>s_gx := fst hx, s_gy := fst hy, s_mesh := snd hy\<rparr>)
                else s)"
  define s2 where "s2 = (if do_calc_limiters P then
                  (let l = calc_limiters (vars P) (limiter_func P) (s_mesh s1) q (s_gx s1) (s_gy s1)
                             (s_limiters s1, s_qmin s1, s_qmax s1);
                       hl = halo (vars P) ps (rx_limiters rx) (fst l, s_mesh s1)
                   in s1\<lparr>s_limiters := fst hl, s_qmin := fst (snd l), s_qmax := snd (snd l),
                          s_mesh := snd hl\<rparr>)
                else s1)"
  have m1: "same_geometry m0 (s_mesh s1)"
  proof (cases "do_calc_gradients P")
    case True
    define g where "g = calc_gradients (vars P) (s_mesh s) q (s_gx s, s_gy s)"
    have a: "same_geometry m0 (snd (halo (vars P) ps (rx_gx rx) (fst g, s_mesh s)))"
      by (rule halo_frame(2) [OF assms])
    have b: "same_geometry m0 (snd (halo (vars P) ps (rx_gy rx)
                 (snd g, snd (halo (vars P) ps (rx_gx rx) (fst g, s_mesh s)))))"
      by (rule halo_frame(2) [OF a])
    have "s_mesh s1 = snd (halo (vars P) ps (rx_gy rx)
                 (snd g, snd (halo (vars P) ps (rx_gx rx) (fst g, s_mesh s))))"
      using True by (simp add: s1_def Let_def g_def)
    then show ?thesis using b by simp
  next
    case False
    then show ?thesis using assms by (simp add: s1_def)
  qed
  have q1: "s_qt s1 = s_qt s" by (simp add: s1_def Let_def)
  have m2: "same_geometry m0 (s_mesh s2)"
  proof (cases "do_calc_limiters P")
    case True
    define l where "l = calc_limiters (vars P) (limiter_func P) (s_mesh s1) q (s_gx s1) (s_gy s1)
                             (s_limiters s1, s_qmin s1, s_qmax s1)"
    have a: "same_geometry m0 (snd (halo (vars P) ps (rx_limiters rx) (fst l, s_mesh s1)))"
      by (rule halo_frame(2) [OF m1])
    have "s_mesh s2 = snd (halo (vars P) ps (rx_limiters rx) (fst l, s_mesh s1))"
      using True by (simp add: s2_def Let_def l_def)
    then show ?thesis using a by simp
  next
    case False
    then show ?thesis using m1 by (simp add: s2_def)
  qed
  have q2: "s_qt s2 = s_qt s" using q1 by (simp add: s2_def Let_def)
  have c: "complete_calc_qt P ps rx q s =
      s2\<lparr>s_qt := calc_time_derivatives (vars P) (calc_flux P) (s_mesh s2) q (s_gx s2) (s_gy s2)
                  (s_limiters s2) (s_qt s2)\<rparr>"
    unfolding complete_calc_qt_def s2_def s1_def Let_def by (rule refl)
  have "s_mesh (complete_calc_qt P ps rx q s) = s_mesh s2"
    and "s_qt (complete_calc_qt P ps rx q s) =
      calc_time_derivatives (vars P) (calc_flux P) (s_mesh s2) q (s_gx s2) (s_gy s2)
        (s_limiters s2) (s_qt s)"
    by (simp_all add: c q2)
  then show ?thesis using m2 by blast
qed

lemma rk_stage_conserves:
  assumes "mesh_ok m0" "closed_domain m0" "k < vars P"
    and "\<forall>i<vars P * length (cellsAreas m0). dt ! i = d"
    and "length qk = vars P * length (cellsAreas m0)"
    and "length (s_qt w) = vars P * length (cellsAreas m0)"
    and "same_geometry m0 (s_mesh w)"
  shows "length (fst (rk_stage P ps rx q1 dt na (qk, w))) = vars P * length (cellsAreas m0)"
    and "length (s_qt (snd (rk_stage P ps rx q1 dt na (qk, w)))) = vars P * length (cellsAreas m0)"
    and "same_geometry m0 (s_mesh (snd (rk_stage P ps rx q1 dt na (qk, w))))"
    and "total_owned (vars P) m0 k (fst (rk_stage P ps rx q1 dt na (qk, w))) =
           total_owned (vars P) m0 k q1"
    and "ps \<le> 1 \<Longrightarrow> total_all (vars P) m0 k (fst (rk_stage P ps rx q1 dt na (qk, w))) =
           total_all (vars P) m0 k q1"
proof -
  let ?V = "vars P"
  let ?N = "length (cellsAreas m0)"
  define w1 where "w1 = complete_calc_qt P ps (rx (fst na)) qk w"
  define qk1 where "qk1 = update_cells qk q1 (s_qt w1) dt (snd na)"
  define h where "h = halo ?V ps (rx_qk (rx (fst na))) (qk1, s_mesh w1)"
  have r: "rk_stage P ps rx q1 dt na (qk, w) = (fst h, w1\<lparr>s_mesh := snd h\<rparr>)"
    unfolding rk_stage_def h_def qk1_def w1_def Let_def by simp
  obtain m' gx' gy' lm' where g: "same_geometry m0 m'" "s_mesh w1 = m'"
    and qt: "s_qt w1 = calc_time_derivatives ?V (calc_flux P) m' qk gx' gy' lm' (s_qt w)"
    using complete_calc_qt_geom [OF assms(7), of P ps "rx (fst na)" qk] unfolding w1_def by blast
  note f = same_geometry_fields [OF g(1)]
  have lqt: "length (s_qt w1) = ?V * ?N" using assms(6) by (simp add: qt)
  have "total_all ?V m' k (s_qt w1) = 0 \<and> total_owned ?V m' k (s_qt w1) = 0"
    unfolding qt
  proof (rule calc_time_derivatives_balance)
    show "closed_domain m'" using assms(2) by (simp add: f)
    show "nRealCells m' \<le> length (cellsAreas m')" using assms(1) by (simp add: f mesh_ok_def)
    show "length (s_qt w) = ?V * length (cellsAreas m')" using assms(6) by (simp add: f)
    show "\<forall>c<nRealCells m'. 0 < cellsAreas m' ! c" using assms(1) by (simp add: f mesh_ok_def)
    show "k < ?V" by (rule assms(3))
  qed
  then have z: "total_all ?V m0 k (s_qt w1) = 0" "total_owned ?V m0 k (s_qt w1) = 0"
    by (simp_all add: f)
  have t1: "total_all ?V m0 k qk1 = total_all ?V m0 k q1 \<and>
            total_owned ?V m0 k qk1 = total_owned ?V m0 k q1"
    unfolding qk1_def by (rule update_cells_totals [OF assms(5,3,4) z])
  have l1: "length qk1 = ?V * ?N" using assms(5) by (simp add: qk1_def)
  have g1: "same_geometry m0 (s_mesh w1)" using g by simp
  have hl: "length (fst h) = length qk1" and hg: "same_geometry m0 (snd h)"
    unfolding h_def by (rule halo_frame(1) [OF g1], rule halo_frame(2) [OF g1])
  have ho: "fst h ! (?V * c + k) = qk1 ! (?V * c + k)" if "owned m0 c" for c
    unfolding h_def by (rule halo_frame(3) [OF g1 that assms(3)])
  show "length (fst (rk_stage P ps rx q1 dt na (qk, w))) = ?V * ?N"
    by (simp add: r hl l1)
  show "length (s_qt (snd (rk_stage P ps rx q1 dt na (qk, w)))) = ?V * ?N"
    by (simp add: r lqt)
  show "same_geometry m0 (s_mesh (snd (rk_stage P ps rx q1 dt na (qk, w))))"
    by (simp add: r hg)
  have "total_owned ?V m0 k (fst h) = total_owned ?V m0 k qk1"
    by (rule total_owned_cong) (simp add: ho)
  then show "total_owned ?V m0 k (fst (rk_stage P ps rx q1 dt na (qk, w))) = total_owned ?V m0 k q1"
    using t1 by (simp add: r)
  show "total_all ?V m0 k (fst (rk_stage P ps rx q1 dt na (qk, w))) = total_all ?V m0 k q1"
    if "ps \<le> 1"
  proof -
    have "fst h = qk1" unfolding h_def by (rule halo_frame(4) [OF g1 that])
    then show ?thesis using t1 by (simp add: r)
  qed
qed


lemma closed_no_bindings:
  assumes "mesh_ok m" "closed_domain m"
  shows "boundaryEdges m = []"
proof (rule ccontr)
  assume "boundaryEdges m \<noteq> []"
  then have 0: "0 < length (boundaryEdges m)" by simp
  then have e: "boundaryEdges m ! 0 < edgesNodes_cols m"
    using assms(1) by (simp add: mesh_ok_def)
  have "\<not> owned m (snd (edgesCells m ! (boundaryEdges m ! 0)))"
    using assms(1) 0 by (simp add: mesh_ok_def boundary_pairs_ok_def)
  moreover have "owned m (snd (edgesCells m ! (boundaryEdges m ! 0)))"
    using assms(2) e by (simp add: closed_domain_def)
  ultimately show False by simp
qed

lemma time_step_parts:
  "r_dt (time_step P rank ps env st) =
     (let hd = halo (vars P) ps (rx_dt env)
                 (calc_dt P (r_dt st) (update_bounds (vars P) (s_mesh (r_work st)) (r_q st))
                    (s_mesh (r_work st)), s_mesh (r_work st))
      in if global_dt P then
           (let dt2 = min_dt (fst hd)
            in if ps > 1 then
                 validate_dt rank (vd_dti0 env) (vd_inbox env) (vd_from_root env) dt2
               else dt2)
         else fst hd)"
  unfolding time_step_def Let_def by simp

section \<open>Results\<close>

text \<open>
  C1. After \<^verbatim>\<open>min_dt\<close> and \<^verbatim>\<open>validate_dt\<close> every entry of \<open>dt\<close> on every rank should be
  one scalar that is at most every entry of every rank before the reduction. With three
  ranks holding \<open>[5,5]\<close>, \<open>[1,1]\<close> and \<open>[3,3]\<close> the code leaves \<open>[3,5]\<close> on rank 0 and
  \<open>[3,3]\<close> on the others: rank 0 keeps its local minimum in every entry but the first,
  and the minimum of rank 1 is lost because only the last received value is compared.
\<close>

theorem global_dt_reduce_three_ranks:
  "global_dt_reduce dti0 [[5, 5], [1, 1], [3, 3]] = [[3, 5], [3, 3], [3, 3]]"
  by (simp add: global_dt_reduce_def validate_dt_all_def validate_dt_def min_dt_def
      for_assign_def std_min_def upt_conv_Cons)

text \<open>
  C3. After \<^verbatim>\<open>calc_time_derivatives\<close>, and so after \<^verbatim>\<open>complete_calc_qt\<close>, which ends
  with it, \<open>qt[V*c+k] = 0\<close> for every variable \<open>k\<close> and every cell \<open>c\<close> whose index
  is at least \<^verbatim>\<open>nRealCells\<close> or whose ghost flag is set, for every state, gradients,
  limiters, flux kernel and mesh.
\<close>

theorem ghost_cells_have_zero_qt:
  assumes "c < length (cellsAreas m)" and "nRealCells m \<le> c \<or> cellsIsGhost m ! c"
    and "k < V" and "V * c + k < length qt"
  shows "calc_time_derivatives V fl m q gx gy lm qt ! (V * c + k) = 0 \<and>
         (vars P = V \<and> s_mesh s = m \<and> s_qt s = qt \<longrightarrow>
            s_qt (complete_calc_qt P pool_size rx q s) ! (V * c + k) = 0)"
proof -
  have no: "\<not> owned m c" using assms(2) by (auto simp: owned_def)
  have a: "calc_time_derivatives V fl m' q' gx' gy' lm' qt ! (V * c + k) = 0"
    if "m' = m\<lparr>comms := cs\<rparr>" for m' cs q' gx' gy' lm' fl
    by (rule calc_time_derivatives_ghost) (use assms no that in \<open>simp_all add: owned_def\<close>)
  have "calc_time_derivatives V fl m q gx gy lm qt ! (V * c + k) = 0"
    using a [of m "comms m"] by simp
  moreover have "s_qt (complete_calc_qt P pool_size rx q s) ! (V * c + k) = 0"
    if "vars P = V" "s_mesh s = m" "s_qt s = qt"
    using complete_calc_qt_mesh [of P pool_size rx q s] a that by auto
  ultimately show ?thesis by blast
qed

theorem ghost_cells_have_zero_qt_witness:
  "calc_time_derivatives 1 ex_flux ex_mesh [1, 2, 3] [0, 0, 0] [0, 0, 0] [1, 1, 1] [7, 7, 7] ! 2 = 0 \<and>
   s_qt (complete_calc_qt ex_problem 1 ex_stage_rx [1, 2, 3] ex_work) ! 2 = 0"
proof -
  have h1: "2 < length (cellsAreas ex_mesh)"
    and h2: "nRealCells ex_mesh \<le> 2 \<or> cellsIsGhost ex_mesh ! 2"
    by (simp_all add: ex_mesh_def)
  have h3: "(0::nat) < 1" and h4: "1 * 2 + 0 < length [7, 7, 7 :: real]"
    by simp_all
  have h5: "vars ex_problem = 1 \<and> s_mesh ex_work = ex_mesh \<and> s_qt ex_work = [7, 7, 7]"
    by (simp add: ex_problem_def ex_work_def)
  have e: "1 * 2 + 0 = (2::nat)" by simp
  show ?thesis
    using ghost_cells_have_zero_qt [OF h1 h2 h3 h4, where P = ex_problem and s = ex_work] h5
    unfolding e by blast
qed

text \<open>
  C5, as the claim states it, fails: a cell that carries the ghost flag but whose index is
  below \<^verbatim>\<open>nRealCells\<close> keeps its accumulated gradient, divided by its area. On
  \<open>ex_mesh_halo\<close> with \<open>q = [1, 1]\<close> the flagged cell 1 ends with \<open>gx = -1\<close>.
\<close>

theorem calc_gradients_flagged_ghost_counterexample:
  "cellsIsGhost ex_mesh_halo ! 1 \<and> 1 < length (cellsAreas ex_mesh_halo) \<and>
   fst (calc_gradients 1 ex_mesh_halo [1, 1] ([0, 0], [0, 0])) ! (1 * 1 + 0) = - 1"
  by (simp add: calc_gradients_def ex_mesh_halo_def grad_edge_def grad_normalize_def grad_zero_def
      for_assign_def Let_def upt_conv_Cons)

text \<open>
  C5, amended. After \<^verbatim>\<open>calc_gradients\<close> the stored gradients \<open>gx[V*c+k]\<close> and
  \<open>gy[V*c+k]\<close> are zero for every cell \<open>c\<close> with index at least \<^verbatim>\<open>nRealCells\<close> and
  every variable \<open>k\<close>, for every \<open>q\<close> and mesh. The function does not read the ghost
  flags.
\<close>

theorem calc_gradients_boundary_ghost_zero:
  assumes "nRealCells m \<le> c" and "c < length (cellsAreas m)" and "k < V"
    and "V * c + k < length (fst g)" and "V * c + k < length (snd g)"
  shows "fst (calc_gradients V m q g) ! (V * c + k) = 0 \<and>
         snd (calc_gradients V m q g) ! (V * c + k) = 0"
proof -
  define g0 where "g0 = (for_assign (length (fst g)) (\<lambda>_. 0::real) (fst g),
                         for_assign (length (fst g)) (\<lambda>_. 0::real) (snd g))"
  define g2 where "g2 = fold (grad_normalize V m) [0..<nRealCells m]
                          (fold (grad_edge V m q) [0..<edgesNodes_cols m] g0)"
  have l2: "length (fst g2) = length (fst g) \<and> length (snd g2) = length (snd g)"
    using fold_pair_length [of "grad_normalize V m", OF grad_normalize_length]
      fold_pair_length [of "grad_edge V m q", OF grad_edge_length]
    by (simp add: g2_def g0_def)
  have cg: "calc_gradients V m q g = fold (grad_zero V) [nRealCells m..<length (cellsAreas m)] g2"
    unfolding calc_gradients_def g2_def g0_def Let_def by (rule refl)
  show ?thesis
    unfolding cg
  proof (rule fold_establish [where x = c
        and I = "\<lambda>u. length (fst u) = length (fst g) \<and> length (snd u) = length (snd g)"
        and Z = "\<lambda>u. fst u ! (V * c + k) = 0 \<and> snd u ! (V * c + k) = 0"])
    show "c \<in> set [nRealCells m..<length (cellsAreas m)]" using assms by simp
    show "length (fst g2) = length (fst g) \<and> length (snd g2) = length (snd g)" by (rule l2)
  qed (use assms in \<open>simp_all add: grad_zero_split zero_cell_nth zero_cell_keep\<close>)
qed

theorem calc_gradients_boundary_ghost_zero_witness:
  "fst (calc_gradients 1 ex_mesh [1, 2, 3] ([5, 5, 5], [5, 5, 5])) ! 2 = 0 \<and>
   snd (calc_gradients 1 ex_mesh [1, 2, 3] ([5, 5, 5], [5, 5, 5])) ! 2 = 0"
proof -
  have h1: "nRealCells ex_mesh \<le> 2" and h2: "2 < length (cellsAreas ex_mesh)"
    by (simp_all add: ex_mesh_def)
  have h3: "(0::nat) < 1"
    and h4: "1 * 2 + 0 < length (fst ([5, 5, 5 :: real], [5, 5, 5 :: real]))"
    and h5: "1 * 2 + 0 < length (snd ([5, 5, 5 :: real], [5, 5, 5 :: real]))"
    by simp_all
  have e: "1 * 2 + 0 = (2::nat)" by simp
  show ?thesis
    using calc_gradients_boundary_ghost_zero [OF h1 h2 h3 h4 h5, of "[1, 2, 3]"]
    unfolding e .
qed

text \<open>
  C10. After \<^verbatim>\<open>calc_limiters\<close>, \<open>limiters[V*c+k] = 1\<close> for every variable \<open>k\<close> and
  every cell \<open>c\<close> that is not owned (index at least \<^verbatim>\<open>nRealCells\<close>, or ghost flag
  set), for every \<open>q\<close>, \<open>gx\<close>, \<open>gy\<close>, limiter function and mesh: the limiter starts
  at 1 everywhere and only owned cells are minimised. So the \<open>V\<close> limiter values that
  the flux kernel reads for such a cell are all 1 as long as no halo exchange has
  overwritten them.
\<close>

theorem calc_limiters_ghost_one:
  assumes "nRealCells m \<le> c \<or> cellsIsGhost m ! c" and "V * c + V \<le> length lims"
  shows "(\<forall>k<V. fst (calc_limiters V lf m q gx gy (lims, qmin, qmax)) ! (V * c + k) = 1) \<and>
         cell_slice V (fst (calc_limiters V lf m q gx gy (lims, qmin, qmax))) c = replicate V 1"
proof -
  have no: "\<not> owned m c" using assms(1) by (auto simp: owned_def)
  have one: "fst (calc_limiters V lf m q gx gy (lims, qmin, qmax)) ! (V * c + k) = 1" if "k < V" for k
    unfolding calc_limiters_fst
  proof (rule fold_inv [where P = "\<lambda>u. u ! (V * c + k) = 1"])
    show "for_assign (length lims) (\<lambda>_. 1) lims ! (V * c + k) = 1"
      using that assms(2) by (simp add: nth_for_assign)
  qed (use no that in \<open>simp add: limiter_edge_other\<close>)
  have "cell_slice V (fst (calc_limiters V lf m q gx gy (lims, qmin, qmax))) c = replicate V 1"
    by (rule nth_equalityI) (simp_all add: cell_slice_def one)
  then show ?thesis using one by blast
qed

theorem calc_limiters_ghost_one_witness:
  "fst (calc_limiters 1 limiter_func_michalak ex_mesh [1, 2, 3] [0, 0, 0] [0, 0, 0]
          ([0, 0, 0], [0, 0, 0], [0, 0, 0])) ! 2 = 1 \<and>
   cell_slice 1 (fst (calc_limiters 1 limiter_func_michalak ex_mesh [1, 2, 3] [0, 0, 0] [0, 0, 0]
          ([0, 0, 0], [0, 0, 0], [0, 0, 0]))) 2 = [1]"
proof -
  have h1: "nRealCells ex_mesh \<le> 2 \<or> cellsIsGhost ex_mesh ! 2"
    by (simp add: ex_mesh_def)
  have h2: "1 * 2 + 1 \<le> length [0, 0, 0 :: real]"
    by simp
  show ?thesis
    using calc_limiters_ghost_one [OF h1 h2, of limiter_func_michalak "[1, 2, 3]" "[0, 0, 0]"
        "[0, 0, 0]" "[0, 0, 0]" "[0, 0, 0]"]
    by simp
qed




text \<open>
  C8. On a mesh whose boundary edges pair an owned cell with a ghost cell, and for any
  kernels that compute the ghost state from the owned state and the normal, two calls
  of \<^verbatim>\<open>update_bounds\<close> in a row give the same \<open>q\<close> as one call: the calls read only
  owned cells and write only ghost cells.
\<close>

theorem update_bounds_idempotent:
  assumes "boundary_pairs_ok m" and "length q = V * length (cellsAreas m)"
  shows "update_bounds V m (update_bounds V m q) = update_bounds V m q"
proof (rule nth_equalityI)
  show "length (update_bounds V m (update_bounds V m q)) = length (update_bounds V m q)"
    by simp
next
  fix idx
  assume "idx < length (update_bounds V m (update_bounds V m q))"
  then have idx: "idx < V * length (cellsAreas m)" using assms(2) by simp
  then have Vpos: "0 < V" by (cases V) simp_all
  define bs where "bs = [0..<length (boundaryEdges m)]"
  define c where "c = idx div V"
  define k where "k = idx mod V"
  have k: "k < V" and dec: "idx = V * c + k"
    using Vpos by (simp_all add: c_def k_def)
  define q1 where "q1 = fold (bound_edge V m) bs q"
  have ub: "update_bounds V m w = fold (bound_edge V m) bs w" for w
    by (simp add: update_bounds_def bs_def)
  have disj: "bnd_src m i \<notin> bnd_dst m ` set bs" if "i \<in> set bs" for i
  proof
    assume "bnd_src m i \<in> bnd_dst m ` set bs"
    then obtain j where j: "j \<in> set bs" "bnd_src m i = bnd_dst m j" by auto
    have "owned m (bnd_src m i)" using that assms(1) by (simp add: boundary_pairs_ok_def bs_def)
    moreover have "\<not> owned m (bnd_dst m j)" using j(1) assms(1) by (simp add: boundary_pairs_ok_def bs_def)
    ultimately show False using j(2) by simp
  qed
  have inr: "\<forall>i\<in>set bs. V * bnd_dst m i + V \<le> length q"
  proof
    fix i assume "i \<in> set bs"
    then have "bnd_dst m i < length (cellsAreas m)"
      using assms(1) by (simp add: boundary_pairs_ok_def bs_def)
    then have "Suc (bnd_dst m i) \<le> length (cellsAreas m)" by simp
    then have "V * Suc (bnd_dst m i) \<le> V * length (cellsAreas m)" by (rule mult_le_mono2)
    then show "V * bnd_dst m i + V \<le> length q" using assms(2) by simp
  qed
  have rdsame: "same_on_cells V (bnd_src m ` set bs) q q1"
    unfolding same_on_cells_def q1_def
    by (auto simp: bound_fold_frame disj)
  have agree: "same_on_cells V (bnd_src m ` set bs \<union> bnd_dst m ` set bs)
                 (fold (bound_edge V m) bs q) (fold (bound_edge V m) bs q1)"
  proof (rule bound_fold_agree [OF _ rdsame _ inr])
    show "length q = length q1" by (simp add: q1_def fold_cell_length)
    show "\<forall>i\<in>set bs. bnd_src m i \<in> bnd_src m ` set bs" by simp
  qed
  have "fold (bound_edge V m) bs q1 ! (V * c + k) = q1 ! (V * c + k)"
  proof (cases "c \<in> bnd_dst m ` set bs")
    case True
    then show ?thesis
      using agree k by (simp add: same_on_cells_def q1_def)
  next
    case False
    then show ?thesis using k by (rule bound_fold_frame)
  qed
  then show "update_bounds V m (update_bounds V m q) ! idx = update_bounds V m q ! idx"
    by (simp add: ub q1_def dec)
qed

theorem update_bounds_idempotent_witness:
  "update_bounds 1 ex_mesh (update_bounds 1 ex_mesh [1, 2, 3]) = update_bounds 1 ex_mesh [1, 2, 3]"
proof -
  have h1: "boundary_pairs_ok ex_mesh"
    by (simp add: boundary_pairs_ok_def ex_mesh_def owned_def)
  have h2: "length [1, 2, 3 :: real] = 1 * length (cellsAreas ex_mesh)"
    by (simp add: ex_mesh_def)
  show ?thesis
    using update_bounds_idempotent [OF h1 h2] .
qed

text \<open>
  C4. After \<^verbatim>\<open>calc_residuals\<close>, on every rank and for every variable \<open>k\<close>, \<open>R[k]\<close> is
  the square root of the sum, over all ranks and over the owned non-ghost cells of
  each, of \<open>qt[c,k]\<^sup>2 \<cdot> A[c]\<close>. Each rank passes an array \<open>R\<close> of \<open>V\<close> entries.
\<close>

theorem calc_residuals_all_value:
  assumes "\<forall>x\<in>set ranks. length (snd (snd x)) = V" and "r < length ranks" and "k < V"
  shows "calc_residuals_all V ranks ! r ! k =
           sqrt (\<Sum>(m, qt, R)\<leftarrow>ranks.
                   \<Sum>c\<leftarrow>[0..<nRealCells m].
                     if cellsIsGhost m ! c then 0
                     else qt ! (V * c + k) * qt ! (V * c + k) * cellsAreas m ! c)"
proof -
  obtain m0 qt0 R0 rest where ranks: "ranks = (m0, qt0, R0) # rest"
    using assms(2) by (cases ranks) auto
  define inbox where "inbox = map (\<lambda>(m, qt, R). residual_partial V m qt R) rest"
  define root where "root = calc_residuals V 0 inbox [] m0 qt0 R0"
  have all: "calc_residuals_all V ranks =
      root # map (\<lambda>(r, m, qt, R). calc_residuals V (Suc r) [] root m qt R) (enumerate 0 rest)"
    by (simp add: calc_residuals_all_def ranks Let_def root_def inbox_def)
  have l0: "length R0 = V" using assms(1) by (simp add: ranks)
  have lrest: "length R = V" if "(m, qt, R) \<in> set rest" for m qt R
    using assms(1) that by (auto simp: ranks)
  have "(\<Sum>x\<leftarrow>inbox. x ! k) = (\<Sum>(m, qt, R)\<leftarrow>rest. \<Sum>c\<leftarrow>[0..<nRealCells m]. cell_term V m qt k c)"
    unfolding inbox_def map_map
    by (rule arg_cong [where f = sum_list], rule map_cong)
       (use lrest assms(3) in \<open>auto simp: residual_partial_nth\<close>)
  then have rootk: "root ! k = sqrt (\<Sum>(m, qt, R)\<leftarrow>ranks. \<Sum>c\<leftarrow>[0..<nRealCells m]. cell_term V m qt k c)"
    using l0 assms(3) by (simp add: root_def calc_residuals_root ranks)
  have "calc_residuals_all V ranks ! r ! k = root ! k"
  proof (cases r)
    case 0
    then show ?thesis by (simp add: all)
  next
    case (Suc r')
    then have r': "r' < length rest" using assms(2) by (simp add: ranks)
    obtain m qt R where x: "rest ! r' = (m, qt, R)" by (cases "rest ! r'")
    have "(m, qt, R) \<in> set rest" using r' x by (metis nth_mem)
    then have "length R = V" by (rule lrest)
    then show ?thesis
      using Suc r' x assms(3) by (simp add: all nth_enumerate_eq calc_residuals_other)
  qed
  then show ?thesis
    using rootk by (simp add: cell_term_def)
qed

theorem calc_residuals_all_value_witness:
  "calc_residuals_all 1 [(ex_mesh, [1, 1, 5], [9]), (ex_mesh, [1, 1, 7], [8])] ! 1 ! 0 = 2"
proof -
  have h1: "\<forall>x\<in>set [(ex_mesh, [1, 1, 5 :: real], [9 :: real]), (ex_mesh, [1, 1, 7], [8])].
              length (snd (snd x)) = 1"
    by simp
  have h2: "1 < length [(ex_mesh, [1, 1, 5 :: real], [9 :: real]), (ex_mesh, [1, 1, 7], [8])]"
    and h3: "(0::nat) < 1"
    by simp_all
  show ?thesis
    using calc_residuals_all_value [OF h1 h2 h3]
    by (simp add: ex_mesh_def upt_conv_Cons)
qed

text \<open>
  C9, as the claim states it, fails: \<^verbatim>\<open>update_comms\<close> never waits for a send. With one
  channel the calls are one \<open>MPI_Isend\<close>, one \<open>MPI_Recv\<close> and one \<open>MPI_Request_free\<close>.
\<close>

theorem update_comms_no_wait_counterexample:
  "\<not> sends_completed (snd (snd (update_comms 1 [[5]] ([1, 2], ex_mesh_comm))))"
  by (simp add: update_comms_def ex_mesh_comm_def pack_comm_def Let_def enumerate_eq_zip)

text \<open>
  C9, amended. For every field, mesh and channel list, \<^verbatim>\<open>update_comms\<close> posts one
  non-blocking send per channel, then makes one blocking receive per channel, then
  releases every send request with \<open>MPI_Request_free\<close>; it makes no call that waits for
  a send to complete.
\<close>

theorem update_comms_calls:
  "snd (snd (update_comms V rx (q, m))) =
     map (\<lambda>(k, c). MPI_Isend k (snd_q (pack_comm V q c)) (out_rank c)) (enumerate 0 (comms m)) @
     map (\<lambda>c. MPI_Recv (out_rank c)) (comms m) @
     map MPI_Request_free [0..<length (comms m)] \<and>
   (\<forall>k. MPI_Wait k \<notin> set (snd (snd (update_comms V rx (q, m)))))"
proof -
  have r: "map (\<lambda>x. MPI_Recv (out_rank (snd x))) (enumerate 0 (comms m)) =
           map (\<lambda>c. MPI_Recv (out_rank c)) (comms m)"
    by (rule map_snd_enumerate_fun)
  have "snd (snd (update_comms V rx (q, m))) =
     map (\<lambda>(k, c). MPI_Isend k (snd_q (pack_comm V q c)) (out_rank c)) (enumerate 0 (comms m)) @
     map (\<lambda>c. MPI_Recv (out_rank c)) (comms m) @
     map MPI_Request_free [0..<length (comms m)]"
    by (simp add: update_comms_def Let_def enumerate_map case_prod_beta o_def r)
  then show ?thesis by auto
qed

text \<open>
  C7. The loop of \<^verbatim>\<open>run\<close> always ends, and it ends exactly at the first pass at whose
  top \<open>step \<ge> max_step\<close>, or \<open>time \<ge> max_time\<close>, or \<open>Rmax < tolerance\<close> holds: the
  state returned is the state after \<open>n\<close> passes, the test holds there, and it held at
  the top of no earlier pass. At \<open>step = 0\<close> the value \<open>Rmax\<close> is forced to 1;
  afterwards it is the maximum over the variables \<open>k\<close> of \<open>R[k]\<close>, the residuals being
  non-negative (the code starts the maximum from 0).
\<close>

theorem run_loop_stops_exactly:
  "(\<exists>n. run_loop P opt rank pool_size env st = run_passes P opt rank pool_size env n st \<and>
        loop_stops (vars P) opt (run_passes P opt rank pool_size env n st) \<and>
        (\<forall>i<n. \<not> loop_stops (vars P) opt (run_passes P opt rank pool_size env i st))) \<and>
   (loop_stops V opt s \<longleftrightarrow>
      max_step opt \<le> r_step s \<or> max_time opt \<le> r_time s \<or> Rmax_of V s < tolerance opt) \<and>
   (r_step s = 0 \<longrightarrow> Rmax_of V s = 1) \<and>
   (0 < r_step s \<and> 0 < V \<and> (\<forall>k<V. 0 \<le> r_R s ! k) \<longrightarrow>
      Rmax_of V s = Max ((\<lambda>k. r_R s ! k) ` {..<V}))"
proof -
  have "Rmax_of V s = Max ((\<lambda>k. r_R s ! k) ` {..<V})"
    if "0 < r_step s" "0 < V" "\<forall>k<V. 0 \<le> r_R s ! k"
    using that Rmax_fold [of "r_R s" V] Rmax_nonneg [of V "r_R s"] by (simp add: Rmax_of_def)
  moreover have "Rmax_of V s = 1" if "r_step s = 0"
    using that by (simp add: Rmax_of_def)
  moreover have "loop_stops V opt s \<longleftrightarrow>
      max_step opt \<le> r_step s \<or> max_time opt \<le> r_time s \<or> Rmax_of V s < tolerance opt"
    by (simp add: loop_stops_def)
  ultimately show ?thesis
    using run_loop_passes [of P opt rank pool_size env st] by blast
qed

theorem run_loop_stops_exactly_witness:
  "run_loop ex_problem ex_options 0 1 (\<lambda>_. ex_step_rx) ex_solver =
     run_body ex_problem ex_options 0 1 ex_step_rx ex_solver \<and>
   Rmax_of 1 ex_solver = 1 \<and>
   Rmax_of 1 (ex_solver\<lparr>r_step := 1, r_R := [1 / 2]\<rparr>) = 1 / 2"
proof -
  let ?pass = "run_passes ex_problem ex_options 0 1 (\<lambda>_. ex_step_rx)"
  obtain n where n: "run_loop ex_problem ex_options 0 1 (\<lambda>_. ex_step_rx) ex_solver = ?pass n ex_solver"
      "loop_stops (vars ex_problem) ex_options (?pass n ex_solver)"
      "\<forall>i<n. \<not> loop_stops (vars ex_problem) ex_options (?pass i ex_solver)"
    using run_loop_stops_exactly [of ex_problem ex_options 0 1 "\<lambda>_. ex_step_rx" ex_solver]
    by blast
  have r0: "Rmax_of 1 ex_solver = 1"
    using run_loop_stops_exactly [where s = ex_solver and V = 1]
    by (simp add: ex_solver_def)
  have go: "\<not> loop_stops (vars ex_problem) ex_options (?pass 0 ex_solver)"
    by (simp add: loop_stops_def Rmax_of_def ex_solver_def ex_options_def)
  have stop: "loop_stops (vars ex_problem) ex_options (?pass 1 ex_solver)"
    by (simp add: loop_stops_def run_body_step ex_solver_def ex_options_def)
  have "n \<noteq> 0" using n(2) go by (cases n) auto
  moreover have "\<not> 1 < n" using n(3) stop by blast
  ultimately have "n = 1" by simp
  then have a: "run_loop ex_problem ex_options 0 1 (\<lambda>_. ex_step_rx) ex_solver =
     run_body ex_problem ex_options 0 1 ex_step_rx ex_solver"
    using n(1) by simp
  have "Rmax_of 1 (ex_solver\<lparr>r_step := 1, r_R := [1 / 2]\<rparr>) =
          Max ((\<lambda>k. r_R (ex_solver\<lparr>r_step := 1, r_R := [1 / 2]\<rparr>) ! k) ` {..<1})"
    using run_loop_stops_exactly [where s = "ex_solver\<lparr>r_step := 1, r_R := [1 / 2]\<rparr>" and V = 1]
    by simp
  then have "Rmax_of 1 (ex_solver\<lparr>r_step := 1, r_R := [1 / 2]\<rparr>) = 1 / 2"
    by (simp add: lessThan_Suc)
  then show ?thesis using a r0 by simp
qed

text \<open>
  C2. On a closed domain (every edge joins two owned, non-ghost cells) and for every
  variable \<open>k\<close>, when the \<open>dt\<close> field that the step uses holds one value \<open>d\<close> in every
  entry, one pass of the driver through boundary conditions, time step, stages and the
  copy back preserves \<open>\<Sum> A[c] \<cdot> q[c,k]\<close>: over the owned cells for any number of ranks
  and any received messages, and over all cells of the mesh on a single rank. Each edge
  subtracts its flux from one cell and adds it to the other, so \<open>\<Sum> A[c] \<cdot> qt[c,k] = 0\<close>
  after \<^verbatim>\<open>calc_time_derivatives\<close>, and every stage adds \<open>d \<cdot> \<alpha>\<close> times that sum.
\<close>

theorem time_step_conserves:
  assumes "mesh_ok m" and "closed_domain m" and "s_mesh (r_work st) = m"
    and "length (r_q st) = vars P * length (cellsAreas m)"
    and "length (r_qk st) = vars P * length (cellsAreas m)"
    and "length (s_qt (r_work st)) = vars P * length (cellsAreas m)"
    and "\<forall>i<vars P * length (cellsAreas m). r_dt (time_step P rank pool_size env st) ! i = d"
    and "k < vars P"
  shows "total_owned (vars P) m k (r_q (time_step P rank pool_size env st)) =
           total_owned (vars P) m k (r_q st) \<and>
         (pool_size \<le> 1 \<longrightarrow>
            total_all (vars P) m k (r_q (time_step P rank pool_size env st)) =
              total_all (vars P) m k (r_q st))"
proof -
  let ?V = "vars P"
  let ?N = "length (cellsAreas m)"
  define q1 where "q1 = update_bounds ?V (s_mesh (r_work st)) (r_q st)"
  define dt1 where "dt1 = calc_dt P (r_dt st) q1 (s_mesh (r_work st))"
  define hd where "hd = halo ?V pool_size (rx_dt env) (dt1, s_mesh (r_work st))"
  define dt3 where "dt3 = (if global_dt P then
                   (let dt2 = min_dt (fst hd)
                    in if pool_size > 1 then
                         validate_dt rank (vd_dti0 env) (vd_inbox env) (vd_from_root env) dt2
                       else dt2)
                 else fst hd)"
  define qk0 where "qk0 = for_assign (length q1) (\<lambda>i. q1 ! i) (r_qk st)"
  define w0 where "w0 = (r_work st)\<lparr>s_mesh := snd hd\<rparr>"
  define qw where "qw = fold (rk_stage P pool_size (rx_stage env) q1 dt3) (enumerate 0 alpha) (qk0, w0)"
  define q2 where "q2 = for_assign (length q1) (\<lambda>i. fst qw ! i) q1"
  have ts: "time_step P rank pool_size env st =
              st\<lparr>r_q := q2, r_qk := fst qw, r_dt := dt3, r_work := snd qw\<rparr>"
    unfolding time_step_def q2_def qw_def w0_def qk0_def dt3_def hd_def dt1_def q1_def Let_def
    by (rule refl)
  have q1: "q1 = r_q st"
    using closed_no_bindings [OF assms(1,2)] by (simp add: q1_def update_bounds_def assms(3))
  have lq1: "length q1 = ?V * ?N" using assms(4) by (simp add: q1)
  have dt: "\<forall>i<?V * ?N. dt3 ! i = d" using assms(7) by (simp add: ts)
  have sg: "same_geometry m m"
    unfolding same_geometry_def using assms(1) by (intro exI [of _ "comms m"]) (simp add: mesh_ok_def)
  have sg0: "same_geometry m (s_mesh w0)"
    unfolding w0_def hd_def using halo_frame(2) [OF sg] by (simp add: assms(3))
  have pt0: "qk0 ! i = q1 ! i" if "i < ?V * ?N" for i
    using that lq1 assms(5) by (simp add: qk0_def nth_for_assign)
  define Inv where "Inv = (\<lambda>s :: real list \<times> work.
      length (fst s) = ?V * ?N \<and> length (s_qt (snd s)) = ?V * ?N \<and>
      same_geometry m (s_mesh (snd s)) \<and>
      total_owned ?V m k (fst s) = total_owned ?V m k q1 \<and>
      (pool_size \<le> 1 \<longrightarrow> total_all ?V m k (fst s) = total_all ?V m k q1))"
  have i0: "Inv (qk0, w0)"
  proof -
    have "total_owned ?V m k qk0 = total_owned ?V m k q1"
      by (rule total_owned_cong) (simp add: pt0 cell_index_less assms(8))
    moreover have "total_all ?V m k qk0 = total_all ?V m k q1"
      by (rule total_all_cong) (simp add: pt0 cell_index_less assms(8))
    moreover have "length qk0 = ?V * ?N" using assms(5) by (simp add: qk0_def)
    moreover have "length (s_qt w0) = ?V * ?N" using assms(6) by (simp add: w0_def)
    ultimately show ?thesis using sg0 by (simp add: Inv_def)
  qed
  have step: "Inv (rk_stage P pool_size (rx_stage env) q1 dt3 na s)" if "Inv s" for na s
  proof -
    obtain qk w where s: "s = (qk, w)" by (cases s)
    have a: "length qk = ?V * ?N" "length (s_qt w) = ?V * ?N" "same_geometry m (s_mesh w)"
      using that by (simp_all add: Inv_def s)
    show ?thesis
      unfolding Inv_def s
      using rk_stage_conserves [OF assms(1,2,8) dt a, of pool_size "rx_stage env" q1 na]
      by blast
  qed
  have "Inv qw"
    unfolding qw_def by (rule fold_inv [where P = Inv]) (simp_all add: i0 step)
  then have lw: "length (fst qw) = ?V * ?N"
    and to: "total_owned ?V m k (fst qw) = total_owned ?V m k q1"
    and ta: "pool_size \<le> 1 \<Longrightarrow> total_all ?V m k (fst qw) = total_all ?V m k q1"
    by (simp_all add: Inv_def)
  have pt2: "q2 ! i = fst qw ! i" if "i < ?V * ?N" for i
    using that lq1 by (simp add: q2_def nth_for_assign)
  have "total_owned ?V m k q2 = total_owned ?V m k (fst qw)"
    by (rule total_owned_cong) (simp add: pt2 cell_index_less assms(8))
  moreover have "total_all ?V m k q2 = total_all ?V m k (fst qw)"
    by (rule total_all_cong) (simp add: pt2 cell_index_less assms(8))
  ultimately show ?thesis
    using to ta by (simp add: ts q1)
qed


theorem time_step_conserves_witness:
  "total_owned 1 ex_mesh_closed 0 (r_q (time_step ex_problem 0 1 ex_step_rx ex_solver_closed)) = 5 \<and>
   total_all 1 ex_mesh_closed 0 (r_q (time_step ex_problem 0 1 ex_step_rx ex_solver_closed)) = 5"
proof -
  have h1: "mesh_ok ex_mesh_closed"
    by (simp add: mesh_ok_def boundary_pairs_ok_def rec_ok_def ex_mesh_closed_def
        less_Suc_eq numeral_2_eq_2)
  have h2: "closed_domain ex_mesh_closed"
    by (simp add: closed_domain_def owned_def ex_mesh_closed_def)
  have h3: "s_mesh (r_work ex_solver_closed) = ex_mesh_closed"
    by (simp add: ex_solver_closed_def)
  have h4: "length (r_q ex_solver_closed) = vars ex_problem * length (cellsAreas ex_mesh_closed)"
    and h5: "length (r_qk ex_solver_closed) = vars ex_problem * length (cellsAreas ex_mesh_closed)"
    and h6: "length (s_qt (r_work ex_solver_closed)) =
               vars ex_problem * length (cellsAreas ex_mesh_closed)"
    by (simp_all add: ex_solver_closed_def ex_problem_def ex_mesh_closed_def)
  have "r_dt (time_step ex_problem 0 1 ex_step_rx ex_solver_closed) = [1 / 10, 1 / 10]"
    by (simp add: time_step_parts ex_problem_def ex_solver_closed_def halo_def min_dt_def
        for_assign_def std_min_def upt_conv_Cons Let_def)
  then have h7: "\<forall>i<vars ex_problem * length (cellsAreas ex_mesh_closed).
                   r_dt (time_step ex_problem 0 1 ex_step_rx ex_solver_closed) ! i = 1 / 10"
    by (simp add: ex_problem_def ex_mesh_closed_def less_Suc_eq numeral_2_eq_2)
  have h8: "0 < vars ex_problem" by (simp add: ex_problem_def)
  have v: "vars ex_problem = 1" by (simp add: ex_problem_def)
  have t: "total_owned 1 ex_mesh_closed 0 (r_q ex_solver_closed) = 5"
    "total_all 1 ex_mesh_closed 0 (r_q ex_solver_closed) = 5"
    by (simp_all add: total_owned_def total_all_def owned_def ex_mesh_closed_def
        ex_solver_closed_def lessThan_Suc numeral_2_eq_2)
  show ?thesis
    using time_step_conserves [OF h1 h2 h3 h4 h5 h6 h7 h8] t unfolding v by simp
qed

end
